theory Spec2Isabelle
  imports Main "HOL-Library.Sublist"
begin

section \<open>Python text primitives\<close>

text \<open>
  A Python \<^verbatim>\<open>str\<close> is a list of code points. The script
  \<^verbatim>\<open>clean_test_utils.py\<close> handles a character only by comparing it with the
  characters of its ASCII literals, so its texts are lists of code points as natural
  numbers (\<open>ustring\<close>), and every code point of its replacement block is written as
  the number it is. The scripts \<^verbatim>\<open>fix_remaining_syntax.py\<close> and
  \<^verbatim>\<open>fix_test_utils.py\<close> sort characters into classes (\<^verbatim>\<open>\s\<close>, \<^verbatim>\<open>\w\<close>,
  \<^verbatim>\<open>str.strip\<close>); their texts are lists of code points below 256 (\<^typ>\<open>string\<close>, a
  \<^typ>\<open>char\<close> standing for the code point of its number), the range on which the
  classes are tabulated here. The operations that both kinds of text share are defined
  for lists of any element type.
\<close>

type_synonym ustring = "nat list"

definition codepoint :: "char \<Rightarrow> nat" where
  "codepoint c = of_char c"

text \<open>An ASCII literal of \<^verbatim>\<open>clean_test_utils.py\<close> as a text of code points.\<close>

definition ustr :: "string \<Rightarrow> ustring" where
  "ustr s = map codepoint s"

definition newline :: char where
  "newline = CHR 0x0A"

text \<open>The code points below 256 for which \<^verbatim>\<open>str.isspace\<close> holds; the class
  \<^verbatim>\<open>\s\<close> of \<^verbatim>\<open>re\<close> on a \<^verbatim>\<open>str\<close> pattern is the same set.\<close>

definition py_isspace :: "char \<Rightarrow> bool" where
  "py_isspace c = (c \<in> set [CHR 0x09, CHR 0x0A, CHR 0x0B, CHR 0x0C, CHR 0x0D,
                              CHR 0x1C, CHR 0x1D, CHR 0x1E, CHR 0x1F, CHR 0x20,
                              CHR 0x85, CHR 0xA0])"

text \<open>\<^verbatim>\<open>line.count(c)\<close> for a one-character argument.\<close>

definition py_count :: "'a list \<Rightarrow> 'a \<Rightarrow> int" where
  "py_count line c = int (count_list line c)"

text \<open>\<^verbatim>\<open>sub in line\<close>: \<^verbatim>\<open>sub\<close> occurs in \<^verbatim>\<open>line\<close> as a contiguous piece.\<close>

fun py_in :: "'a list \<Rightarrow> 'a list \<Rightarrow> bool" where
  "py_in sub [] = (sub = [])"
| "py_in sub (c # cs) = (prefix sub (c # cs) \<or> py_in sub cs)"

text \<open>\<^verbatim>\<open>content.split(sep)\<close> for a one-character separator: the result is never empty.\<close>

fun py_split :: "'a \<Rightarrow> 'a list \<Rightarrow> 'a list list" where
  "py_split sep [] = [[]]"
| "py_split sep (c # cs) =
     (let r = py_split sep cs
      in if c = sep then [] # r else (c # hd r) # tl r)"

text \<open>\<^verbatim>\<open>sep.join(parts)\<close>.\<close>

fun py_join :: "'a list \<Rightarrow> 'a list list \<Rightarrow> 'a list" where
  "py_join sep [] = []"
| "py_join sep [x] = x"
| "py_join sep (x # y # ys) = x @ sep @ py_join sep (y # ys)"

text \<open>\<^verbatim>\<open>str(n)\<close> for a non-negative integer, as the f-strings print it.\<close>

definition digit_char :: "nat \<Rightarrow> char" where
  "digit_char d = ''0123456789'' ! d"

fun py_str_nat :: "nat \<Rightarrow> string" where
  "py_str_nat n = (if n < 10 then [digit_char n] else py_str_nat (n div 10) @ [digit_char (n mod 10)])"

declare py_str_nat.simps [simp del]

section \<open>The file store and standard output\<close>

text \<open>
  The scripts read and write files by path and print progress lines. None of them
  catches an exception, so an exception that \<^verbatim>\<open>open\<close>, \<^verbatim>\<open>read\<close> or
  \<^verbatim>\<open>write\<close> raises leaves the function that called it, and every caller up to the
  end of the script.

  The store maps a path to what is there: a text file (the text is what
  \<^verbatim>\<open>read\<close> returns), a text file that may be read and not written, a directory, a
  file whose bytes are not text in the encoding it is opened with, or a file that the
  process may neither read nor write. \<^verbatim>\<open>os.path.exists\<close> holds of every path of the
  store. The lines printed are kept in order.
\<close>

datatype py_error = FileNotFoundError | IsADirectoryError | PermissionError | UnicodeDecodeError

datatype 'c node = Text "'c list" | ReadOnly "'c list" | Directory | Undecodable | NoAccess

record 'c world =
  fs :: "string \<rightharpoonup> 'c node"
  stdout :: "string list"

text \<open>How a call ends: it returns a value, or it raises. Either way the world is the one
  the call has left behind.\<close>

datatype ('a, 'c) outcome = Returns 'a "'c world" | Raises py_error "'c world"

definition print :: "string \<Rightarrow> 'c world \<Rightarrow> 'c world" where
  "print msg w = w\<lparr>stdout := stdout w @ [msg]\<rparr>"

definition path_exists :: "string \<Rightarrow> 'c world \<Rightarrow> bool" where
  "path_exists path w = (fs w path \<noteq> None)"

text \<open>\<^verbatim>\<open>with open(path, 'r', ...) as f: content = f.read()\<close>.\<close>

fun read_node :: "'c node option \<Rightarrow> py_error + 'c list" where
  "read_node None = Inl FileNotFoundError"
| "read_node (Some (Text t)) = Inr t"
| "read_node (Some (ReadOnly t)) = Inr t"
| "read_node (Some Directory) = Inl IsADirectoryError"
| "read_node (Some Undecodable) = Inl UnicodeDecodeError"
| "read_node (Some NoAccess) = Inl PermissionError"

definition read_file :: "string \<Rightarrow> 'c world \<Rightarrow> py_error + 'c list" where
  "read_file path w = read_node (fs w path)"

text \<open>
  \<^verbatim>\<open>with open(path, 'w', ...) as f: f.write(text)\<close>: the exception that opening for
  writing raises, if any; otherwise the path holds the new text. (Each script writes
  only to a path it has read before.)
\<close>

fun write_error :: "'c node option \<Rightarrow> py_error option" where
  "write_error None = None"
| "write_error (Some (Text t)) = None"
| "write_error (Some (ReadOnly t)) = Some PermissionError"
| "write_error (Some Directory) = Some IsADirectoryError"
| "write_error (Some Undecodable) = None"
| "write_error (Some NoAccess) = Some PermissionError"

definition write_file :: "string \<Rightarrow> 'c list \<Rightarrow> 'c world \<Rightarrow> py_error + 'c world" where
  "write_file path text w =
     (case write_error (fs w path) of
        Some e \<Rightarrow> Inl e
      | None \<Rightarrow> Inr (w\<lparr>fs := (fs w)(path \<mapsto> Text text)\<rparr>))"

section \<open>The script \<^verbatim>\<open>clean_test_utils.py\<close>\<close>

definition file_path :: string where
  "file_path = ''src/testing/test-utils.ts''"

definition responses_marker :: ustring where
  "responses_marker = ustr ''const responses: Record<string, (args: any) => any> = {''"

text \<open>
  Lines 14 to 27: the loop over \<^verbatim>\<open>enumerate(lines)\<close>. The arguments are the lines
  still to visit, the index \<^verbatim>\<open>i\<close> of the first of them, and the variables
  \<^verbatim>\<open>start_line\<close> and \<^verbatim>\<open>brace_count\<close>; the result is
  \<^verbatim>\<open>(start_line, end_line)\<close> when the loop is left, by \<^verbatim>\<open>break\<close> or at the end.
\<close>

fun scan_responses :: "ustring list \<Rightarrow> nat \<Rightarrow> nat option \<Rightarrow> int \<Rightarrow> nat option \<times> nat option" where
  "scan_responses [] i start_line brace_count = (start_line, None)"
| "scan_responses (line # rest) i start_line brace_count =
     (if py_in responses_marker line then scan_responses rest (Suc i) (Some i) 1
      else if start_line \<noteq> None then
        (let brace_count' = brace_count
               + (py_count line (codepoint CHR ''{'') - py_count line (codepoint CHR ''}''))
         in if brace_count' = 0 then (start_line, Some i)
            else scan_responses rest (Suc i) start_line brace_count')
      else scan_responses rest (Suc i) start_line brace_count)"

definition find_responses :: "ustring list \<Rightarrow> nat option \<times> nat option" where
  "find_responses lines = scan_responses lines 0 None 0"

text \<open>Lines 41 to 124: the replacement block. Three of its characters are beyond ASCII:
  U+2705, U+1F535 and U+274C.\<close>

definition new_responses :: "ustring list" where
  \<open>new_responses = [
    ustr ''  const responses: Record<string, (args: any) => any> = {'',
    ustr ''    'agent.property.analysis': (args) => ({'',
    ustr ''      content: ['',
    ustr ''        {'',
    ustr ''          type: 'text','',
    ustr ''          text: `# Property Analysis for ${args.context?.domain || 'domain'}'',
    [],
    ustr ''## Recommended Product'',
    ustr ''**Ion Standard** (prd_Fresca) - Best for general web acceleration'',
    [],
    ustr ''## Configuration Recommendations'',
    ustr ''- Origin server: ${args.context?.origin || 'origin.example.com'}'',
    ustr ''- Caching: Standard web content'',
    ustr ''- Compression: Enabled'',
    ustr ''- HTTP/2 optimization: Enabled'',
    [],
    ustr ''## Next Steps'',
    ustr ''1. Create property with Ion Standard product'',
    ustr ''2. Configure origin and hostnames'',
    ustr ''3. Test on staging network'',
    ustr ''4. Activate to production`,'',
    ustr ''        },'',
    ustr ''      ],'',
    ustr ''    }),'',
    [],
    ustr ''    'property.create': (args) => {'',
    ustr ''      // Handle retry with corrected name first'',
    ustr ''      if (args.propertyName === 'invalid-domain.com') {'',
    ustr ''        return {'',
    ustr ''          content: ['',
    ustr ''            {'',
    ustr ''              type: 'text','',
    ustr ''              text: `'' @ [0x2705] @ ustr '' **Property Created Successfully!**'',
    [],
    ustr ''## Property Details'',
    ustr ''- **Name:** ${args.propertyName}'',
    ustr ''- **Property ID:** prp_124'',
    ustr ''- **Product:** Ion Standard'',
    ustr ''- **Contract:** Contract ${args.contractId}'',
    ustr ''- **Group:** Group ${args.groupId}'',
    ustr ''- **Status:** '' @ [0x1F535] @ ustr '' NEW (Not yet activated)'',
    [],
    ustr ''Successfully created property with corrected name.`,'',
    ustr ''            },'',
    ustr ''          ],'',
    ustr ''        };'',
    ustr ''      }'',
    ustr ''      // Handle validation errors for invalid names'',
    ustr ''      if (args.propertyName?.includes(' ') || args.propertyName?.includes('!@#')) {'',
    ustr ''        return {'',
    ustr ''          content: ['',
    ustr ''            {'',
    ustr ''              type: 'text','',
    ustr ''              text: `'' @ [0x274C] @ ustr '' Cannot create property - validation errors:'',
    [],
    ustr ''- Property name contains invalid characters'',
    [],
    ustr ''Property name can only contain letters, numbers, hyphens, dots, and underscores'',
    [],
    ustr ''**Suggestion:** Try using a valid name instead, such as "${args.propertyName?.replace(/[^a-zA-Z0-9.-_]/g, '-')}"`,'',
    ustr ''            },'',
    ustr ''          ],'',
    ustr ''        };'',
    ustr ''      }'',
    ustr ''      return {'',
    ustr ''        content: ['',
    ustr ''          {'',
    ustr ''            type: 'text','',
    ustr ''            text: `'' @ [0x2705] @ ustr '' **Property Created Successfully!**'',
    [],
    ustr ''## Property Details'',
    ustr ''- **Name:** ${args.propertyName}'',
    ustr ''- **Property ID:** prp_123'',
    ustr ''- **Product:** Ion Standard'',
    ustr ''- **Contract:** Contract ${args.contractId}'',
    ustr ''- **Group:** Group ${args.groupId}'',
    ustr ''- **Status:** '' @ [0x1F535] @ ustr '' NEW (Not yet activated)`,'',
    ustr ''          },'',
    ustr ''        ],'',
    ustr ''      };'',
    ustr ''    },'',
    ustr ''  };''
  ]\<close>

text \<open>
  Lines 37, 38 and 127: the lines before the span and the lines after it are kept, and
  the replacement goes between them.
\<close>

definition replace_span :: "'a list \<Rightarrow> nat \<Rightarrow> nat \<Rightarrow> 'a list \<Rightarrow> 'a list" where
  "replace_span lines start_line end_line new_lines =
     (let before_responses = take start_line lines;
          after_responses = drop (end_line + 1) lines
      in before_responses @ new_lines @ after_responses)"

text \<open>The separator of line 127 is written \<^verbatim>\<open>'\\n'\<close>: a backslash and the letter n.\<close>

definition join_separator :: ustring where
  "join_separator = ustr [CHR 0x5C, CHR ''n'']"

text \<open>Lines 3 to 132. The line about the span is printed before the file is opened for
  writing.\<close>

definition fix_test_utils_comprehensive :: "nat world \<Rightarrow> (unit, nat) outcome" where
  "fix_test_utils_comprehensive w =
     (case read_file file_path w of
        Inl e \<Rightarrow> Raises e w
      | Inr content \<Rightarrow>
          (let lines = py_split (codepoint newline) content
           in case find_responses lines of
                (Some start_line, Some end_line) \<Rightarrow>
                  (let w1 = print (''Fixing responses section from line '' @ py_str_nat start_line
                                   @ '' to '' @ py_str_nat end_line) w;
                       fixed_content = py_join join_separator
                                         (replace_span lines start_line end_line new_responses)
                   in case write_file file_path fixed_content w1 of
                        Inl e \<Rightarrow> Raises e w1
                      | Inr w2 \<Rightarrow> Returns () (print ''Fixed test-utils.ts responses section'' w2))
              | _ \<Rightarrow> Returns () (print ''Could not find responses object'' w)))"

subsection \<open>The scan as the specification words it\<close>

text \<open>
  The depth after line \<open>j\<close> of a scan that starts at line \<open>s\<close> with depth 1: one, plus
  the openers less the closers of every line after \<open>s\<close> up to \<open>j\<close>.
\<close>

definition line_delta :: "'a \<Rightarrow> 'a \<Rightarrow> 'a list \<Rightarrow> int" where
  "line_delta opn cls line = py_count line opn - py_count line cls"

definition running_depth :: "'a \<Rightarrow> 'a \<Rightarrow> 'a list list \<Rightarrow> nat \<Rightarrow> nat \<Rightarrow> int" where
  "running_depth opn cls lines s j =
     1 + sum_list (map (\<lambda>k. line_delta opn cls (lines ! k)) [Suc s..<Suc j])"

definition first_balanced :: "'a \<Rightarrow> 'a \<Rightarrow> 'a list list \<Rightarrow> nat \<Rightarrow> nat option" where
  "first_balanced opn cls lines s =
     find (\<lambda>j. running_depth opn cls lines s j = 0) [Suc s..<length lines]"

section \<open>The regular expressions of the scripts\<close>

text \<open>
  Every pattern of \<^verbatim>\<open>fix_remaining_syntax.py\<close> and \<^verbatim>\<open>fix_test_utils.py\<close> is a
  sequence of literal characters, character classes, greedy \<^verbatim>\<open>*\<close> and \<^verbatim>\<open>+\<close> on a
  class, capture groups that do not nest, and \<^verbatim>\<open>$\<close> under \<^verbatim>\<open>re.MULTILINE\<close>. A
  pattern is the list of its items in order. None of them looks behind the position
  where a match starts, so a match is decided by the text from that position on.
\<close>

text \<open>The code points below 256 in the class \<^verbatim>\<open>\w\<close> of a \<^verbatim>\<open>str\<close> pattern.\<close>

definition py_isword :: "char \<Rightarrow> bool" where
  "py_isword c =
     (let n = (of_char c :: nat)
      in (48 \<le> n \<and> n \<le> 57) \<or> (65 \<le> n \<and> n \<le> 90) \<or> n = 95 \<or> (97 \<le> n \<and> n \<le> 122)
         \<or> n \<in> set [170, 178, 179, 181, 185, 186, 188, 189, 190]
         \<or> (192 \<le> n \<and> n \<le> 214) \<or> (216 \<le> n \<and> n \<le> 246) \<or> (248 \<le> n \<and> n \<le> 255))"

datatype cset = Single char | Range char char | WS | WordC

fun in_cset :: "cset \<Rightarrow> char \<Rightarrow> bool" where
  "in_cset (Single c) x = (x = c)"
| "in_cset (Range a b) x = ((of_char a :: nat) \<le> of_char x \<and> (of_char x :: nat) \<le> of_char b)"
| "in_cset WS x = py_isspace x"
| "in_cset WordC x = py_isword x"

datatype cls = AnyOf "cset list" | NoneOf "cset list"

fun in_cls :: "cls \<Rightarrow> char \<Rightarrow> bool" where
  "in_cls (AnyOf cs) x = list_ex (\<lambda>c. in_cset c x) cs"
| "in_cls (NoneOf cs) x = (\<not> list_ex (\<lambda>c. in_cset c x) cs)"

datatype tok = Lit char | One cls | Star cls | Plus cls | GOpen | GClose | Eol

abbreviation lits :: "string \<Rightarrow> tok list" where
  "lits s \<equiv> map Lit s"

abbreviation ws :: cls where
  "ws \<equiv> AnyOf [WS]"

abbreviation wordc :: cls where
  "wordc \<equiv> AnyOf [WordC]"

abbreviation no :: "char \<Rightarrow> cls" where
  "no c \<equiv> NoneOf [Single c]"

text \<open>
  The backtracking match of a pattern at the start of a text. The arguments are the
  items still to match, the text still to read, the texts at which the groups now open
  began, and the groups captured so far; the result is the text left after the first
  match in backtracking order, with its groups. A greedy repetition first takes the
  next character of its class and gives it back when the rest of the pattern fails.
\<close>

fun rx_match :: "tok list \<Rightarrow> string \<Rightarrow> string list \<Rightarrow> string list \<Rightarrow> (string \<times> string list) option" where
  "rx_match [] s os gs = Some (s, gs)"
| "rx_match (Lit c # ts) [] os gs = None"
| "rx_match (Lit c # ts) (x # xs) os gs = (if x = c then rx_match ts xs os gs else None)"
| "rx_match (One k # ts) [] os gs = None"
| "rx_match (One k # ts) (x # xs) os gs = (if in_cls k x then rx_match ts xs os gs else None)"
| "rx_match (Star k # ts) [] os gs = rx_match ts [] os gs"
| "rx_match (Star k # ts) (x # xs) os gs =
     (if in_cls k x
      then (case rx_match (Star k # ts) xs os gs of
              Some r \<Rightarrow> Some r
            | None \<Rightarrow> rx_match ts (x # xs) os gs)
      else rx_match ts (x # xs) os gs)"
| "rx_match (Plus k # ts) [] os gs = None"
| "rx_match (Plus k # ts) (x # xs) os gs =
     (if in_cls k x then rx_match (Star k # ts) xs os gs else None)"
| "rx_match (GOpen # ts) s os gs = rx_match ts s (s # os) gs"
| "rx_match (GClose # ts) s [] gs = None"
| "rx_match (GClose # ts) s (b # os) gs = rx_match ts s os (gs @ [take (length b - length s) b])"
| "rx_match (Eol # ts) s os gs =
     (if s = [] \<or> hd s = newline then rx_match ts s os gs else None)"

text \<open>\<^verbatim>\<open>re.match(pattern, line)\<close> as a truth value: a match at the start of the line.\<close>

definition re_match :: "tok list \<Rightarrow> string \<Rightarrow> bool" where
  "re_match p s = (rx_match p s [] [] \<noteq> None)"

text \<open>
  A replacement template: literal text and references \<^verbatim>\<open>\1\<close>, \<^verbatim>\<open>\2\<close> to groups.
  Each template of the scripts refers only to groups its pattern has, and every group
  of these patterns takes part in every match.
\<close>

datatype titem = TLit string | TGroup nat

fun expand :: "titem list \<Rightarrow> string list \<Rightarrow> string" where
  "expand [] gs = []"
| "expand (TLit s # t) gs = s @ expand t gs"
| "expand (TGroup n # t) gs = gs ! (n - 1) @ expand t gs"

text \<open>
  \<^verbatim>\<open>re.sub(pattern, repl, text)\<close>: the matches are searched from left to right and do
  not overlap; a match is replaced by the expanded template and the search goes on after
  it; where no match starts, the character is copied. An empty match is replaced and the
  next character copied.
\<close>

function re_sub :: "tok list \<Rightarrow> titem list \<Rightarrow> string \<Rightarrow> string" where
  "re_sub p t s =
     (case rx_match p s [] [] of
        Some (r, gs) \<Rightarrow>
          (if length r < length s then expand t gs @ re_sub p t r
           else expand t gs @ (case s of [] \<Rightarrow> [] | c # cs \<Rightarrow> c # re_sub p t cs))
      | None \<Rightarrow> (case s of [] \<Rightarrow> [] | c # cs \<Rightarrow> c # re_sub p t cs))"
  by pat_completeness auto
termination
  by (relation "measure (\<lambda>(p, t, s). length s)") auto

declare re_sub.simps [simp del]

section \<open>The script \<^verbatim>\<open>fix_remaining_syntax.py\<close>\<close>

text \<open>Lines 18 to 36: the seven patterns and their replacements, in the order of the calls.\<close>

abbreviation ident_start :: cls where
  "ident_start \<equiv> AnyOf [Range CHR ''a'' CHR ''z'', Range CHR ''A'' CHR ''Z'', Single CHR ''_'']"

abbreviation ident_rest :: cls where
  "ident_rest \<equiv> AnyOf [Range CHR ''a'' CHR ''z'', Range CHR ''A'' CHR ''Z'',
                      Range CHR ''0'' CHR ''9'', Single CHR ''_'']"

definition stringify_rx :: "tok list" where
  "stringify_rx = lits ''JSON.stringify('' @
     [GOpen, Plus (no CHR '')''), GClose, Lit CHR '','', Star ws, Eol]"

definition stringify_repl :: "titem list" where
  "stringify_repl = [TLit ''JSON.stringify('', TGroup 1, TLit ''),'']"

definition arrow_brace_rx :: "tok list" where
  "arrow_brace_rx =
     [GOpen, Plus ws, One ident_start, Star ident_rest, Lit CHR '':'', Star ws,
      Lit CHR ''('', Star (no CHR '')''), Lit CHR '')'', Star ws, Lit CHR ''='', Lit CHR ''>'',
      Star ws, Lit CHR ''{'', Star (no CHR ''}''), Lit CHR ''}'', GClose,
      Lit CHR '','', Star ws, Eol]"

definition arrow_brace_repl :: "titem list" where
  "arrow_brace_repl = [TGroup 1, TLit ''),'']"

definition arrow_paren_rx :: "tok list" where
  "arrow_paren_rx =
     [GOpen, Plus ws, One ident_start, Star ident_rest, Lit CHR '':'', Star ws,
      Lit CHR ''('', Star (no CHR '')''), Lit CHR '')'', Star ws, Lit CHR ''='', Lit CHR ''>'',
      Star ws, Lit CHR ''('', Star (no CHR '')''), Lit CHR ''{'', Star (no CHR ''}''),
      Lit CHR ''}'', GClose, Lit CHR '','', Star ws, Eol]"

definition arrow_paren_repl :: "titem list" where
  "arrow_paren_repl = [TGroup 1, TLit '')),'']"

definition logger_rx :: "tok list" where
  \<open>logger_rx = lits ''logger._error'' @
     [GOpen, One (AnyOf [Single (CHR 0x22), Single (CHR 0x27)]), GClose, Star ws, Lit CHR '','',
      Star ws, Lit CHR ''{'', Star ws] @ lits ''_error.message'' @ [Star ws, Lit CHR ''}'']\<close>

definition logger_repl :: "titem list" where
  "logger_repl = [TLit ''logger.error(`Error: ${_error.message}`)'']"

definition comma_rx :: "tok list" where
  "comma_rx =
     [GOpen, Plus wordc, Lit CHR '':'', Star ws,
      Plus (NoneOf [Single CHR '','', Single CHR ''}'', Single newline]), GClose,
      Star ws, Lit newline, Star ws, GOpen, Plus wordc, Lit CHR '':'', GClose]"

definition comma_repl :: "titem list" where
  "comma_repl = [TGroup 1, TLit ('','' @ [newline] @ ''    ''), TGroup 2]"

definition catch_rx :: "tok list" where
  "catch_rx = lits ''catch'' @ [Star ws, Lit CHR ''('', Star ws] @ lits ''error'' @
     [Star ws, Lit CHR '')'']"

definition catch_repl :: "titem list" where
  "catch_repl = [TLit ''catch (_error)'']"

definition arrow_return_rx :: "tok list" where
  "arrow_return_rx =
     [GOpen, Plus wordc, Lit CHR '':'', Star ws, Lit CHR ''('', Star (no CHR '')''), Lit CHR '')'',
      Star ws, Lit CHR ''='', Lit CHR ''>'', Star ws, Lit CHR ''('', Star (no CHR ''}''), GClose,
      Lit CHR ''}'', Lit CHR '','', Star ws, Eol]"

definition arrow_return_repl :: "titem list" where
  "arrow_return_repl = [TGroup 1, TLit ''}),'']"

definition rules :: "(tok list \<times> titem list) list" where
  "rules = [(stringify_rx, stringify_repl), (arrow_brace_rx, arrow_brace_repl),
            (arrow_paren_rx, arrow_paren_repl), (logger_rx, logger_repl),
            (comma_rx, comma_repl), (catch_rx, catch_repl),
            (arrow_return_rx, arrow_return_repl)]"

text \<open>Lines 15 to 36: \<^verbatim>\<open>content\<close> is rebound by each call in turn.\<close>

definition apply_rules :: "string \<Rightarrow> string" where
  "apply_rules original_content =
     (let content = original_content;
          content = re_sub stringify_rx stringify_repl content;
          content = re_sub arrow_brace_rx arrow_brace_repl content;
          content = re_sub arrow_paren_rx arrow_paren_repl content;
          content = re_sub logger_rx logger_repl content;
          content = re_sub comma_rx comma_repl content;
          content = re_sub catch_rx catch_repl content;
          content = re_sub arrow_return_rx arrow_return_repl content
      in content)"

text \<open>Lines 6 to 45. Nothing is printed when a call raises.\<close>

definition fix_file_syntax_errors :: "string \<Rightarrow> char world \<Rightarrow> (bool, char) outcome" where
  "fix_file_syntax_errors path w =
     (if \<not> path_exists path w
      then Returns False (print (''File '' @ path @ '' does not exist'') w)
      else case read_file path w of
             Inl e \<Rightarrow> Raises e w
           | Inr original_content \<Rightarrow>
               (let content = apply_rules original_content
                in if content \<noteq> original_content
                   then (case write_file path content w of
                           Inl e \<Rightarrow> Raises e w
                         | Inr w1 \<Rightarrow> Returns True (print (''Fixed syntax errors in '' @ path) w1))
                   else Returns False (print (''No syntax errors found in '' @ path) w)))"

definition files_to_fix :: "string list" where
  "files_to_fix = [''src/testing/test-utils.ts'',
                   ''src/tools/analysis/cx-impact-analyzer.ts'',
                   ''src/tools/analysis/fix-strategy.ts'',
                   ''src/tools/analysis/intelligent-bug-analyzer-broken.ts'',
                   ''src/utils/response-parsing.ts'']"

text \<open>
  Lines 56 to 59: the loop of \<^verbatim>\<open>main\<close> over the files, with \<^verbatim>\<open>fixed_count\<close>.
  A call that raises ends the loop.
\<close>

fun fix_files :: "string list \<Rightarrow> nat \<Rightarrow> char world \<Rightarrow> (nat, char) outcome" where
  "fix_files [] fixed_count w = Returns fixed_count w"
| "fix_files (path # rest) fixed_count w =
     (case fix_file_syntax_errors path w of
        Raises e w' \<Rightarrow> Raises e w'
      | Returns True w' \<Rightarrow> fix_files rest (fixed_count + 1) w'
      | Returns False w' \<Rightarrow> fix_files rest fixed_count w')"

definition main :: "char world \<Rightarrow> (unit, char) outcome" where
  "main w =
     (case fix_files files_to_fix 0 w of
        Raises e w' \<Rightarrow> Raises e w'
      | Returns fixed_count w' \<Rightarrow>
          Returns () (print (newline # ''Fixed syntax errors in '' @ py_str_nat fixed_count
                             @ '' files'') w'))"

section \<open>The script \<^verbatim>\<open>fix_test_utils.py\<close>\<close>

text \<open>\<^verbatim>\<open>s.strip()\<close>: the white space at both ends is removed.\<close>

definition py_strip :: "string \<Rightarrow> string" where
  "py_strip s = rev (dropWhile py_isspace (rev (dropWhile py_isspace s)))"

text \<open>\<^verbatim>\<open>s.replace(old, new)\<close> for a non-empty \<^verbatim>\<open>old\<close>: every occurrence found from
  left to right, without overlap, is replaced.\<close>

function py_replace :: "string \<Rightarrow> string \<Rightarrow> string \<Rightarrow> string" where
  "py_replace old new [] = []"
| "py_replace old new (c # cs) =
     (if old \<noteq> [] \<and> prefix old (c # cs)
      then new @ py_replace old new (drop (length old) (c # cs))
      else c # py_replace old new cs)"
  by pat_completeness auto
termination
  by (relation "measure (\<lambda>(old, new, s). length s)") (auto simp: neq_Nil_conv)

text \<open>
  Line 27: the pattern of the line that opens an arrow function returning an object
  literal. \<^verbatim>\<open>re.match\<close> tries the start of the line only, where the \<^verbatim>\<open>^\<close> of the
  pattern holds.
\<close>

definition opener_rx :: "tok list" where
  "opener_rx =
     [Star ws, Lit (CHR 0x27), Plus (no (CHR 0x27)), Lit (CHR 0x27), Star ws, Lit CHR '':'',
      Star ws, Lit CHR ''('', Star (no CHR '')''), Lit CHR '')'', Star ws, Lit CHR ''='',
      Lit CHR ''>'', Star ws, Lit CHR ''('', Lit CHR ''{'']"

text \<open>The variables of the inner loop when it is left.\<close>

record block_state =
  st_index :: nat
  st_bracket_count :: int
  st_paren_count :: int
  st_fixed_lines :: "string list"

text \<open>Lines 35 to 49: the inner loop, from its variables on entry.\<close>

function close_block :: "string list \<Rightarrow> nat \<Rightarrow> int \<Rightarrow> int \<Rightarrow> string list \<Rightarrow> block_state" where
  "close_block lines i bracket_count paren_count fixed_lines =
     (if i < length lines \<and> (bracket_count > 0 \<or> paren_count > 0)
      then
        (let current_line = lines ! i;
             bracket_count' = bracket_count
                              + (py_count current_line CHR ''{'' - py_count current_line CHR ''}'')
         in if bracket_count' = 0 \<and> py_strip current_line = ''},''
            then \<lparr>st_index = i + 1, st_bracket_count = bracket_count', st_paren_count = paren_count,
                  st_fixed_lines = fixed_lines @ [py_replace ''},'' ''}),'' current_line]\<rparr>
            else close_block lines (i + 1) bracket_count' paren_count
                   (fixed_lines @ [current_line]))
      else \<lparr>st_index = i, st_bracket_count = bracket_count, st_paren_count = paren_count,
            st_fixed_lines = fixed_lines\<rparr>)"
  by pat_completeness auto
termination
  by (relation "measure (\<lambda>(lines, i, b, p, f). length lines - i)") auto

declare close_block.simps [simp del]

text \<open>
  Lines 23 to 52: the outer loop. After the inner loop the outer one goes on from the
  index and the output lines the inner one has left.
\<close>

function fix_lines :: "string list \<Rightarrow> nat \<Rightarrow> string list \<Rightarrow> string list" where
  "fix_lines lines i fixed_lines =
     (if i < length lines
      then
        (let line = lines ! i
         in if re_match opener_rx line
            then (let st = close_block lines (i + 1) 1 1 (fixed_lines @ [line])
                  in fix_lines lines (st_index st) (st_fixed_lines st))
            else fix_lines lines (i + 1) (fixed_lines @ [line]))
      else fixed_lines)"
  by pat_completeness auto
termination
proof (relation "measure (\<lambda>(lines, i, f). length lines - i)")
  show "wf (measure (\<lambda>(lines, i, f). length lines - i))"
    by simp
next
  fix lines :: "string list" and i :: nat and fixed_lines :: "string list" and line st
  assume "i < length lines" and "st = close_block lines (i + 1) 1 1 (fixed_lines @ [line])"
  have "j \<le> st_index (close_block lines j b p f)" for j b p f
  proof (induction lines j b p f rule: close_block.induct)
    case (1 lines i b p f)
    let ?b' = "b + (py_count (lines ! i) CHR ''{'' - py_count (lines ! i) CHR ''}'')"
    show ?case
    proof (cases "i < length lines \<and> (b > 0 \<or> p > 0)")
      case run: True
      show ?thesis
      proof (cases "?b' = 0 \<and> py_strip (lines ! i) = ''},''")
        case True
        with run show ?thesis
          by (subst close_block.simps) (simp add: Let_def)
      next
        case False
        from "1.IH" [OF run refl refl False]
        have "i + 1 \<le> st_index (close_block lines (i + 1) ?b' p (f @ [lines ! i]))" .
        with run False show ?thesis
          by (subst close_block.simps) (simp add: Let_def)
      qed
    next
      case False
      then show ?thesis
        by (subst close_block.simps) auto
    qed
  qed
  from this [of "i + 1" 1 1 "fixed_lines @ [line]"] \<open>i < length lines\<close>
    \<open>st = close_block lines (i + 1) 1 1 (fixed_lines @ [line])\<close>
  show "((lines, st_index st, st_fixed_lines st), lines, i, fixed_lines)
          \<in> measure (\<lambda>(lines, i, f). length lines - i)"
    by simp
next
  fix lines :: "string list" and i :: nat and fixed_lines :: "string list" and line
  assume "i < length lines"
  then show "((lines, i + 1, fixed_lines @ [line]), lines, i, fixed_lines)
               \<in> measure (\<lambda>(lines, i, f). length lines - i)"
    by simp
qed

declare fix_lines.simps [simp del]

text \<open>Lines 5 to 6, 19 to 21 and 55 to 58: the script as a whole.\<close>

definition fix_test_utils_script :: "char world \<Rightarrow> (unit, char) outcome" where
  "fix_test_utils_script w =
     (case read_file ''src/testing/test-utils.ts'' w of
        Inl e \<Rightarrow> Raises e w
      | Inr content \<Rightarrow>
          (let lines = py_split newline content;
               fixed_lines = fix_lines lines 0 []
           in case write_file ''src/testing/test-utils.ts'' (py_join [newline] fixed_lines) w of
                Inl e \<Rightarrow> Raises e w
              | Inr w1 \<Rightarrow> Returns () (print ''Fixed test-utils.ts'' w1)))"

section \<open>Notions of the specification\<close>

text \<open>
  The texts that the pattern \<^verbatim>\<open>catch\s*\(\s*error\s*\)\<close> matches in full, said
  without the matcher: the five letters, white space, the opening parenthesis, white
  space, the word \<^verbatim>\<open>error\<close>, white space, the closing parenthesis.
\<close>

definition is_catch_match :: "string \<Rightarrow> bool" where
  "is_catch_match m =
     (\<exists>w1 w2 w3. list_all py_isspace w1 \<and> list_all py_isspace w2 \<and> list_all py_isspace w3
        \<and> m = ''catch'' @ w1 @ ''('' @ w2 @ ''error'' @ w3 @ '')'')"

text \<open>A match starts at the beginning of \<open>s\<close>.\<close>

definition catch_at :: "string \<Rightarrow> bool" where
  "catch_at s = (\<exists>m r. is_catch_match m \<and> s = m @ r)"

text \<open>No match starts at a position of \<open>pre\<close> in the text \<open>pre @ rest\<close>.\<close>

definition catch_free :: "string \<Rightarrow> string \<Rightarrow> bool" where
  "catch_free pre rest = (\<forall>i<length pre. \<not> catch_at (drop i (pre @ rest)))"

text \<open>The pattern \<open>p\<close> matches at no position of the text.\<close>

definition no_match :: "tok list \<Rightarrow> string \<Rightarrow> bool" where
  "no_match p text = (\<forall>i\<le>length text. rx_match p (drop i text) [] [] = None)"

text \<open>The one line that \<^verbatim>\<open>fix_file_syntax_errors\<close> prints for a path, on each of
  the three ways it returns.\<close>

definition report_lines :: "string \<Rightarrow> string set" where
  "report_lines path = {''File '' @ path @ '' does not exist'',
                        ''Fixed syntax errors in '' @ path,
                        ''No syntax errors found in '' @ path}"

text \<open>An output line of \<^verbatim>\<open>fix_test_utils.py\<close> for an input line: the line
  itself, or the line with its closer rewritten when its stripped text is \<^verbatim>\<open>},\<close>.\<close>

definition copied_or_closed :: "string \<Rightarrow> string \<Rightarrow> bool" where
  "copied_or_closed line out =
     (out = line \<or> (py_strip line = ''},'' \<and> out = py_replace ''},'' ''}),'' line))"

text \<open>The closing pattern at line \<open>j\<close> of a block opened at line \<open>i\<close>: the brace
  depth is back at 0 and the stripped line is \<^verbatim>\<open>},\<close>.\<close>

definition closes_at :: "string list \<Rightarrow> nat \<Rightarrow> nat \<Rightarrow> bool" where
  "closes_at lines i j =
     (running_depth CHR ''{'' CHR ''}'' lines i j = 0 \<and> py_strip (lines ! j) = ''},'')"

text \<open>
  What stands at a path lets \<^verbatim>\<open>fix_file_syntax_errors\<close> return: nothing, a text
  file, or a text file that may not be written and that the rules leave as it is.
\<close>

fun repairable :: "char node option \<Rightarrow> bool" where
  "repairable None = True"
| "repairable (Some (Text t)) = True"
| "repairable (Some (ReadOnly t)) = (apply_rules t = t)"
| "repairable (Some Directory) = False"
| "repairable (Some Undecodable) = False"
| "repairable (Some NoAccess) = False"

text \<open>The rules applied \<open>n\<close> times to the text of a text file.\<close>

fun repair_node :: "nat \<Rightarrow> char node \<Rightarrow> char node" where
  "repair_node n (Text t) = Text ((apply_rules ^^ n) t)"
| "repair_node n (ReadOnly t) = ReadOnly t"
| "repair_node n Directory = Directory"
| "repair_node n Undecodable = Undecodable"
| "repair_node n NoAccess = NoAccess"

section \<open>Example inputs\<close>

definition scan_example :: "ustring list" where
  "scan_example = [ustr ''x'', responses_marker, ustr ''a: {'', ustr ''}'', ustr ''};'', ustr ''y'']"

definition no_marker_doc :: ustring where
  "no_marker_doc = ustr ''function f() {'' @ [codepoint newline] @ ustr ''}''"

definition unterminated_doc :: ustring where
  "unterminated_doc = responses_marker @ [codepoint newline] @ ustr ''  a: {''
                        @ [codepoint newline] @ ustr ''  },''"

definition two_line_doc :: ustring where
  "two_line_doc = responses_marker @ [codepoint newline] @ ustr ''};''"

definition five_lines :: "string list" where
  "five_lines = [''a'', ''b'', ''c'', ''d'', ''e'']"

definition three_new_lines :: "string list" where
  "three_new_lines = [''x'', ''y'', ''z'']"

definition catch_example :: "string list" where
  "catch_example = [''try { a } '', ''catch (error)'', '' { b } '', ''catch(error)'', ''; '',
                    ''catch'' @ [newline] @ ''( error )'', '' catch (errors)'']"

definition clean_text :: string where
  "clean_text = ''let x = f(1);''"




definition unclosed_example :: "string list" where
  \<open>unclosed_example = [''x'', ''  'foo': (args) => ({'', ''    a: {'', ''    },'']\<close>

text \<open>The three lines of the scenario, and the same lines with the key in quotes.\<close>

definition arrow_example :: "string list" where
  "arrow_example = [''foo: (args) => ({'', ''  a: 1,'', ''},'']"

definition quoted_arrow_example :: "string list" where
  \<open>quoted_arrow_example = [CHR 0x27 # ''foo': (args) => ({'', ''  a: 1,'', ''},'']\<close>

section \<open>Properties of \<^verbatim>\<open>clean_test_utils.py\<close>\<close>

subsection \<open>The depth of the specification and the scan of the script\<close>

text \<open>
  The depth of the specification is 1 at the start line and grows line by line by the
  openers less the closers; \<open>first_balanced\<close> is the least later index where it is 0.
\<close>

lemma running_depth_start: "running_depth opn cls lines s s = 1"
  by (simp add: running_depth_def)

lemma running_depth_step:
  assumes "s < j"
  shows "running_depth opn cls lines s j =
           running_depth opn cls lines s (j - 1) + line_delta opn cls (lines ! j)"
proof -
  from assms obtain k where j: "j = Suc k" and "s \<le> k"
    by (cases j) auto
  then have "[Suc s..<Suc j] = [Suc s..<Suc k] @ [j]"
    by simp
  then show ?thesis
    by (simp add: running_depth_def j)
qed

lemma first_balanced_None_iff:
  "first_balanced opn cls lines s = None \<longleftrightarrow>
     (\<forall>j. s < j \<and> j < length lines \<longrightarrow> running_depth opn cls lines s j \<noteq> 0)"
  by (auto simp: first_balanced_def find_None_iff)

lemma first_balanced_Some_iff:
  "first_balanced opn cls lines s = Some e \<longleftrightarrow>
     s < e \<and> e < length lines \<and> running_depth opn cls lines s e = 0 \<and>
     (\<forall>j. s < j \<and> j < e \<longrightarrow> running_depth opn cls lines s j \<noteq> 0)"
  (is "?L \<longleftrightarrow> ?R")
proof
  assume ?L
  then obtain i where i: "i < length [Suc s..<length lines]"
      "running_depth opn cls lines s ([Suc s..<length lines] ! i) = 0"
      "e = [Suc s..<length lines] ! i"
      "\<forall>j<i. running_depth opn cls lines s ([Suc s..<length lines] ! j) \<noteq> 0"
    unfolding first_balanced_def find_Some_iff by blast
  from i(1) have e: "e = Suc s + i" and "Suc s + i < length lines"
    using i(3) by auto
  have "running_depth opn cls lines s j \<noteq> 0" if "s < j" "j < e" for j
  proof -
    from that e have "j - Suc s < i" by arith
    with i(4) have "running_depth opn cls lines s ([Suc s..<length lines] ! (j - Suc s)) \<noteq> 0"
      by blast
    moreover have "[Suc s..<length lines] ! (j - Suc s) = j"
      using that e \<open>Suc s + i < length lines\<close> by auto
    ultimately show ?thesis by simp
  qed
  with i e \<open>Suc s + i < length lines\<close> show ?R by auto
next
  assume r: ?R
  let ?i = "e - Suc s"
  from r have "?i < length [Suc s..<length lines]" by auto
  moreover from r have "[Suc s..<length lines] ! ?i = e" by auto
  moreover from r have "\<forall>j<?i. running_depth opn cls lines s ([Suc s..<length lines] ! j) \<noteq> 0"
    by auto
  ultimately show ?L
    unfolding first_balanced_def find_Some_iff using r by metis
qed

text \<open>
  The loop, once a start line \<open>s\<close> is set: its \<^verbatim>\<open>brace_count\<close> is the depth of
  the specification from \<open>s\<close>, and no index between \<open>s\<close> and the current one has
  depth 0 (the loop would have left there). A later line with the marker starts the
  scan again, and the same holds from that line.
\<close>

lemma scan_responses_started:
  assumes "lines = pre @ rest" and "s < length pre" and "py_in responses_marker (lines ! s)"
    and "brace_count = running_depth (codepoint CHR ''{'') (codepoint CHR ''}'') lines s (length pre - 1)"
    and "\<forall>j. s < j \<and> j < length pre \<longrightarrow> running_depth (codepoint CHR ''{'') (codepoint CHR ''}'') lines s j \<noteq> 0"
  shows "\<exists>s'. scan_responses rest (length pre) (Some s) brace_count
                 = (Some s', first_balanced (codepoint CHR ''{'') (codepoint CHR ''}'') lines s')
               \<and> s' < length lines \<and> py_in responses_marker (lines ! s')"
  using assms
proof (induction rest arbitrary: pre s brace_count)
  case Nil
  then have "first_balanced (codepoint CHR ''{'') (codepoint CHR ''}'') lines s = None"
    by (simp add: first_balanced_None_iff)
  with Nil show ?case by auto
next
  case (Cons line rest)
  let ?i = "length pre"
  let ?pre = "pre @ [line]"
  have lines: "lines = ?pre @ rest" and at: "lines ! ?i = line" and len: "?i < length lines"
    using Cons.prems(1) by simp_all
  show ?case
  proof (cases "py_in responses_marker line")
    case True
    have "\<exists>s'. scan_responses rest (length ?pre) (Some ?i) 1
                 = (Some s', first_balanced (codepoint CHR ''{'') (codepoint CHR ''}'') lines s')
               \<and> s' < length lines \<and> py_in responses_marker (lines ! s')"
    proof (rule Cons.IH [OF lines])
      show "?i < length ?pre" by simp
      show "py_in responses_marker (lines ! ?i)" using True at by simp
      show "1 = running_depth (codepoint CHR ''{'') (codepoint CHR ''}'') lines ?i (length ?pre - 1)"
        by (simp add: running_depth_start)
      show "\<forall>j. ?i < j \<and> j < length ?pre \<longrightarrow> running_depth (codepoint CHR ''{'') (codepoint CHR ''}'') lines ?i j \<noteq> 0"
        by simp
    qed
    with True show ?thesis by simp
  next
    case False
    let ?bc = "brace_count + (py_count line (codepoint CHR ''{'') - py_count line (codepoint CHR ''}''))"
    have bc: "?bc = running_depth (codepoint CHR ''{'') (codepoint CHR ''}'') lines s ?i"
      using running_depth_step [OF Cons.prems(2), of "codepoint CHR ''{''" "codepoint CHR ''}''" lines]
        Cons.prems(4) at
      by (simp add: line_delta_def)
    show ?thesis
    proof (cases "?bc = 0")
      case True
      have "first_balanced (codepoint CHR ''{'') (codepoint CHR ''}'') lines s = Some ?i"
        unfolding first_balanced_Some_iff
        using Cons.prems(2,5) len bc True by simp
      with False True Cons.prems(2,3) len show ?thesis
        by (simp add: Let_def)
    next
      case nz: False
      have "\<exists>s'. scan_responses rest (length ?pre) (Some s) ?bc
                   = (Some s', first_balanced (codepoint CHR ''{'') (codepoint CHR ''}'') lines s')
                 \<and> s' < length lines \<and> py_in responses_marker (lines ! s')"
      proof (rule Cons.IH [OF lines])
        show "s < length ?pre" using Cons.prems(2) by simp
        show "py_in responses_marker (lines ! s)" by (rule Cons.prems(3))
        show "?bc = running_depth (codepoint CHR ''{'') (codepoint CHR ''}'') lines s (length ?pre - 1)"
          using bc by simp
        show "\<forall>j. s < j \<and> j < length ?pre \<longrightarrow> running_depth (codepoint CHR ''{'') (codepoint CHR ''}'') lines s j \<noteq> 0"
          using Cons.prems(5) bc nz by (auto simp: less_Suc_eq)
      qed
      with False nz show ?thesis by (simp add: Let_def)
    qed
  qed
qed

text \<open>
  The loop before any start line is set, over lines of which one holds the marker.
\<close>

lemma scan_responses_searching:
  assumes "lines = pre @ rest" and "\<exists>line\<in>set rest. py_in responses_marker line"
  shows "\<exists>s'. scan_responses rest (length pre) None brace_count
                 = (Some s', first_balanced (codepoint CHR ''{'') (codepoint CHR ''}'') lines s')
               \<and> s' < length lines \<and> py_in responses_marker (lines ! s')"
  using assms
proof (induction rest arbitrary: pre)
  case Nil
  then show ?case by simp
next
  case (Cons line rest)
  let ?i = "length pre"
  let ?pre = "pre @ [line]"
  have lines: "lines = ?pre @ rest" and at: "lines ! ?i = line"
    using Cons.prems(1) by simp_all
  show ?case
  proof (cases "py_in responses_marker line")
    case True
    have "\<exists>s'. scan_responses rest (length ?pre) (Some ?i) 1
                 = (Some s', first_balanced (codepoint CHR ''{'') (codepoint CHR ''}'') lines s')
               \<and> s' < length lines \<and> py_in responses_marker (lines ! s')"
    proof (rule scan_responses_started [OF lines])
      show "?i < length ?pre" by simp
      show "py_in responses_marker (lines ! ?i)" using True at by simp
      show "1 = running_depth (codepoint CHR ''{'') (codepoint CHR ''}'') lines ?i (length ?pre - 1)"
        by (simp add: running_depth_start)
      show "\<forall>j. ?i < j \<and> j < length ?pre \<longrightarrow> running_depth (codepoint CHR ''{'') (codepoint CHR ''}'') lines ?i j \<noteq> 0"
        by simp
    qed
    with True show ?thesis by simp
  next
    case False
    with Cons.prems(2) have "\<exists>line\<in>set rest. py_in responses_marker line"
      by simp
    from Cons.IH [OF lines this] False show ?thesis
      by simp
  qed
qed

lemma scan_responses_no_marker:
  "\<forall>line\<in>set rest. \<not> py_in responses_marker line \<Longrightarrow>
   scan_responses rest i None brace_count = (None, None)"
  by (induction rest arbitrary: i) simp_all

lemma find_responses_marker:
  assumes "\<exists>line\<in>set lines. py_in responses_marker line"
  shows "\<exists>s. find_responses lines = (Some s, first_balanced (codepoint CHR ''{'') (codepoint CHR ''}'') lines s)
             \<and> s < length lines \<and> py_in responses_marker (lines ! s)"
  using scan_responses_searching [of lines "[]" lines 0] assms
  by (simp add: find_responses_def)

text \<open>
  Which line the scan starts at: no line after the start line, up to the end index (or
  to the end of the stream when there is no end index), contains the marker; and when
  one line only contains the marker, the scan starts there.
\<close>

lemma scan_responses_last_marker:
  assumes "lines = pre @ rest"
    and "scan_responses rest (length pre) start_line brace_count = (Some s, e)"
  shows "(start_line = Some s \<or> length pre \<le> s)
       \<and> (\<forall>j. s < j \<and> length pre \<le> j
                \<and> j < (case e of None \<Rightarrow> length lines | Some e' \<Rightarrow> Suc e')
              \<longrightarrow> \<not> py_in responses_marker (lines ! j))"
  using assms
proof (induction rest arbitrary: pre start_line brace_count)
  case Nil
  then show ?case by auto
next
  case (Cons line rest)
  let ?i = "length pre"
  let ?pre = "pre @ [line]"
  let ?bound = "case e of None \<Rightarrow> length lines | Some e' \<Rightarrow> Suc e'"
  have lines: "lines = ?pre @ rest" and at: "lines ! ?i = line"
    using Cons.prems(1) by simp_all
  have step: "(start_line = Some s \<or> ?i \<le> s)
       \<and> (\<forall>j. s < j \<and> ?i \<le> j \<and> j < ?bound \<longrightarrow> \<not> py_in responses_marker (lines ! j))"
    if run: "scan_responses rest (length ?pre) start' bc' = (Some s, e)"
      and keep: "start' = start_line \<and> \<not> py_in responses_marker line \<or> start' = Some ?i"
    for start' bc'
  proof -
    from Cons.IH [OF lines run]
    have IH: "start' = Some s \<or> Suc ?i \<le> s"
      "\<forall>j. s < j \<and> Suc ?i \<le> j \<and> j < ?bound \<longrightarrow> \<not> py_in responses_marker (lines ! j)"
      by simp_all
    from IH(1) keep have a: "start_line = Some s \<or> ?i \<le> s"
      by auto
    have "\<not> py_in responses_marker (lines ! j)" if j: "s < j" "?i \<le> j" "j < ?bound" for j
    proof (cases "j = ?i")
      case True
      with j(1) IH(1) keep at show ?thesis by auto
    next
      case False
      with j IH(2) show ?thesis by simp
    qed
    with a show ?thesis by blast
  qed
  show ?case
  proof (cases "py_in responses_marker line")
    case True
    with Cons.prems(2) have "scan_responses rest (length ?pre) (Some ?i) 1 = (Some s, e)"
      by simp
    from step [OF this] show ?thesis by simp
  next
    case False
    show ?thesis
    proof (cases start_line)
      case None
      with False Cons.prems(2)
      have "scan_responses rest (length ?pre) start_line brace_count = (Some s, e)"
        by simp
      from step [OF this] False show ?thesis by simp
    next
      case (Some s0)
      let ?bc = "brace_count + (py_count line (codepoint CHR ''{'') - py_count line (codepoint CHR ''}''))"
      show ?thesis
      proof (cases "?bc = 0")
        case True
        with False Some Cons.prems(2) have "s = s0" "e = Some ?i"
          by (simp_all add: Let_def)
        with Some False at show ?thesis
          by (auto simp: less_Suc_eq)
      next
        case nz: False
        with False Some Cons.prems(2)
        have "scan_responses rest (length ?pre) start_line ?bc = (Some s, e)"
          by (simp add: Let_def)
        from step [OF this] False show ?thesis by simp
      qed
    qed
  qed
qed

lemma find_responses_last_marker:
  assumes "find_responses lines = (Some s, e)"
  shows "\<forall>j. s < j \<and> j < (case e of None \<Rightarrow> length lines | Some e' \<Rightarrow> Suc e')
           \<longrightarrow> \<not> py_in responses_marker (lines ! j)"
  using scan_responses_last_marker [of lines "[]" lines None 0 s e] assms
  by (simp add: find_responses_def)

lemma find_responses_unique_marker:
  assumes "k < length lines" and "py_in responses_marker (lines ! k)"
    and "\<forall>j<length lines. py_in responses_marker (lines ! j) \<longrightarrow> j = k"
  shows "find_responses lines = (Some k, first_balanced (codepoint CHR ''{'') (codepoint CHR ''}'') lines k)"
proof -
  from assms(1,2) have "\<exists>line\<in>set lines. py_in responses_marker line"
    using nth_mem by blast
  from find_responses_marker [OF this] obtain s where
    s: "find_responses lines = (Some s, first_balanced (codepoint CHR ''{'') (codepoint CHR ''}'') lines s)"
      "s < length lines" "py_in responses_marker (lines ! s)"
    by blast
  with assms(3) have "s = k" by blast
  with s(1) show ?thesis by simp
qed

text \<open>
  Splitting at a separator and joining with it gives the text back; the length of a
  joined text counts the separator once between two neighbours.
\<close>

lemma py_split_not_Nil: "py_split sep s \<noteq> []"
  by (induction s) (simp_all add: Let_def)

lemma py_join_Cons: "ys \<noteq> [] \<Longrightarrow> py_join sep (x # ys) = x @ sep @ py_join sep ys"
  by (cases ys) simp_all

lemma py_join_split: "py_join [sep] (py_split sep s) = s"
proof (induction s)
  case Nil
  show ?case by simp
next
  case (Cons c s)
  obtain l ls where r: "py_split sep s = l # ls"
    using py_split_not_Nil [of sep s] by (cases "py_split sep s") auto
  show ?case
  proof (cases "c = sep")
    case True
    with Cons r show ?thesis by (simp add: py_join_Cons)
  next
    case False
    with Cons r show ?thesis by (cases ls) simp_all
  qed
qed

lemma length_py_join:
  "length (py_join sep xs) = sum_list (map length xs) + (length xs - 1) * length sep"
  by (induction sep xs rule: py_join.induct) simp_all

lemma length_new_responses: "length new_responses = 82"
  by (simp add: new_responses_def)

lemma codepoint_eq [simp]: "codepoint a = codepoint b \<longleftrightarrow> a = b"
  by (simp add: codepoint_def)

lemma find_responses_example:
  "find_responses [responses_marker, ustr ''};''] = (Some 0, Some 1)"
  by (simp add: find_responses_def responses_marker_def ustr_def py_count_def)

subsection \<open>The scan for the responses object\<close>

lemma scan_example_marker: "\<exists>line\<in>set scan_example. py_in responses_marker line"
  by (simp add: scan_example_def responses_marker_def ustr_def)

lemma scan_example_result: "find_responses scan_example = (Some 1, Some 4)"
  by (simp add: scan_example_def find_responses_def responses_marker_def ustr_def py_count_def)

text \<open>
  C1: in a line stream with a line that contains the start marker, the scan starts at
  such a line \<open>s\<close> with depth 1, adds the opening braces and subtracts the closing
  braces of every later line, and its end index is the first index after \<open>s\<close> at
  which the depth is exactly 0, when there is one. (When several lines contain the
  marker, each of them that the scan reaches sets the start line and the depth anew:
  \<open>s\<close> is the last of them, see \<open>find_responses_last_marker\<close>.)
\<close>

theorem scan_starts_at_marker_and_ends_at_first_balance:
  assumes "\<exists>line\<in>set lines. py_in responses_marker line"
  shows "\<exists>s. find_responses lines = (Some s, first_balanced (codepoint CHR ''{'') (codepoint CHR ''}'') lines s)
             \<and> s < length lines \<and> py_in responses_marker (lines ! s)"
  using assms by (rule find_responses_marker)

theorem scan_starts_at_marker_and_ends_at_first_balance_witness:
  "(\<exists>line\<in>set scan_example. py_in responses_marker line)
   \<and> (\<exists>s. find_responses scan_example
            = (Some s, first_balanced (codepoint CHR ''{'') (codepoint CHR ''}'') scan_example s)
          \<and> s < length scan_example \<and> py_in responses_marker (scan_example ! s))
   \<and> find_responses scan_example = (Some 1, Some 4)"
  using scan_example_marker scan_example_result
    scan_starts_at_marker_and_ends_at_first_balance [OF scan_example_marker]
  by blast

lemma no_marker_doc_lines:
  "py_split (codepoint newline) no_marker_doc = [ustr ''function f() {'', ustr ''}'']"
  by (simp add: no_marker_doc_def ustr_def newline_def Let_def)

lemma no_marker_doc_free:
  "\<forall>line\<in>set (py_split (codepoint newline) no_marker_doc). \<not> py_in responses_marker line"
  by (simp add: no_marker_doc_lines responses_marker_def ustr_def)

lemma unterminated_doc_lines:
  "py_split (codepoint newline) unterminated_doc
     = [responses_marker, ustr ''  a: {'', ustr ''  },'']"
  by (simp add: unterminated_doc_def responses_marker_def ustr_def newline_def Let_def)

lemma unterminated_doc_start:
  "fst (find_responses (py_split (codepoint newline) unterminated_doc)) = Some 0"
  by (simp add: unterminated_doc_lines find_responses_def responses_marker_def ustr_def
        py_count_def)

lemma unterminated_doc_never:
  "first_balanced (codepoint CHR ''{'') (codepoint CHR ''}'')
     (py_split (codepoint newline) unterminated_doc) 0 = None"
  by (simp add: unterminated_doc_lines first_balanced_def running_depth_def line_delta_def
        py_count_def ustr_def upt_rec)

text \<open>
  C3: when no line contains the start marker, or the depth of the scan never comes back
  to 0 after the line where the scan starts, the repair writes nothing: the file store
  is as before, and the only effect is the printed line that reports the condition.
\<close>

theorem missing_or_unterminated_leaves_document:
  assumes "read_file file_path w = Inr content"
    and "lines = py_split (codepoint newline) content"
    and "(\<forall>line\<in>set lines. \<not> py_in responses_marker line)
         \<or> (\<exists>s. fst (find_responses lines) = Some s
                \<and> first_balanced (codepoint CHR ''{'') (codepoint CHR ''}'') lines s = None)"
  shows "\<exists>w'. fix_test_utils_comprehensive w = Returns () w' \<and> fs w' = fs w
              \<and> stdout w' = stdout w @ [''Could not find responses object'']"
proof -
  have "fst (find_responses lines) = None \<or> snd (find_responses lines) = None"
  proof (cases "\<exists>line\<in>set lines. py_in responses_marker line")
    case True
    from find_responses_marker [OF True] obtain s' where
      s': "find_responses lines
             = (Some s', first_balanced (codepoint CHR ''{'') (codepoint CHR ''}'') lines s')"
      by blast
    with True assms(3) show ?thesis by auto
  next
    case False
    then show ?thesis
      by (simp add: find_responses_def scan_responses_no_marker)
  qed
  then have "fix_test_utils_comprehensive w
               = Returns () (print ''Could not find responses object'' w)"
    using assms(1,2)
    by (cases "find_responses lines")
       (auto simp: fix_test_utils_comprehensive_def Let_def split: option.splits)
  then show ?thesis
    by (simp add: print_def)
qed

theorem missing_or_unterminated_leaves_document_witness:
  "(\<exists>w'. fix_test_utils_comprehensive \<lparr>fs = [file_path \<mapsto> Text no_marker_doc], stdout = []\<rparr>
            = Returns () w'
         \<and> fs w' = [file_path \<mapsto> Text no_marker_doc]
         \<and> stdout w' = [''Could not find responses object''])
   \<and> (\<exists>w'. fix_test_utils_comprehensive \<lparr>fs = [file_path \<mapsto> Text unterminated_doc], stdout = []\<rparr>
            = Returns () w'
         \<and> fs w' = [file_path \<mapsto> Text unterminated_doc]
         \<and> stdout w' = [''Could not find responses object''])"
proof
  have "read_file file_path \<lparr>fs = [file_path \<mapsto> Text no_marker_doc], stdout = []\<rparr>
          = Inr no_marker_doc"
    by (simp add: read_file_def)
  from missing_or_unterminated_leaves_document [OF this refl disjI1, OF no_marker_doc_free]
  show "\<exists>w'. fix_test_utils_comprehensive \<lparr>fs = [file_path \<mapsto> Text no_marker_doc], stdout = []\<rparr>
            = Returns () w'
         \<and> fs w' = [file_path \<mapsto> Text no_marker_doc]
         \<and> stdout w' = [''Could not find responses object'']"
    by simp
next
  have h: "\<exists>s. fst (find_responses (py_split (codepoint newline) unterminated_doc)) = Some s
        \<and> first_balanced (codepoint CHR ''{'') (codepoint CHR ''}'')
            (py_split (codepoint newline) unterminated_doc) s = None"
    using unterminated_doc_start unterminated_doc_never by blast
  have "read_file file_path \<lparr>fs = [file_path \<mapsto> Text unterminated_doc], stdout = []\<rparr>
          = Inr unterminated_doc"
    by (simp add: read_file_def)
  from missing_or_unterminated_leaves_document [OF this refl disjI2, OF h]
  show "\<exists>w'. fix_test_utils_comprehensive \<lparr>fs = [file_path \<mapsto> Text unterminated_doc], stdout = []\<rparr>
            = Returns () w'
         \<and> fs w' = [file_path \<mapsto> Text unterminated_doc]
         \<and> stdout w' = [''Could not find responses object'']"
    by simp
qed

subsection \<open>The document that is written\<close>

lemma two_line_doc_lines:
  "py_split (codepoint newline) two_line_doc = [responses_marker, ustr ''};'']"
  by (simp add: two_line_doc_def responses_marker_def ustr_def newline_def Let_def)

lemma py_str_nat_digit: "n < 10 \<Longrightarrow> py_str_nat n = [digit_char n]"
  by (simp add: py_str_nat.simps)

text \<open>
  C4: splitting a document at the newline and joining the lines with the newline gives
  the document back (\<open>py_join_split\<close>). The repair of \<^verbatim>\<open>clean_test_utils.py\<close> does
  not join with the newline: on the two-line document below it writes the lines joined
  by a backslash and the letter n, which is not the lines joined by the newline.
\<close>

theorem clean_test_utils_joins_with_backslash_n:
  "fix_test_utils_comprehensive \<lparr>fs = [file_path \<mapsto> Text two_line_doc], stdout = []\<rparr>
     = Returns ()
         \<lparr>fs = [file_path \<mapsto> Text (py_join (ustr [CHR 0x5C, CHR ''n'']) new_responses)],
          stdout = [''Fixing responses section from line 0 to 1'',
                    ''Fixed test-utils.ts responses section'']\<rparr>
   \<and> py_join (ustr [CHR 0x5C, CHR ''n'']) new_responses
       \<noteq> py_join [codepoint newline]
            (replace_span (py_split (codepoint newline) two_line_doc) 0 1 new_responses)"
proof -
  have "length (py_join (ustr [CHR 0x5C, CHR ''n'']) new_responses)
          \<noteq> length (py_join [codepoint newline] new_responses)"
    by (simp add: length_py_join length_new_responses ustr_def)
  then have "py_join (ustr [CHR 0x5C, CHR ''n'']) new_responses
               \<noteq> py_join [codepoint newline] new_responses"
    by auto
  moreover have "replace_span [responses_marker, ustr ''};''] 0 1 new_responses = new_responses"
    by (simp add: replace_span_def)
  ultimately show ?thesis
    by (simp add: fix_test_utils_comprehensive_def read_file_def write_file_def
          two_line_doc_lines find_responses_example join_separator_def print_def
          py_str_nat_digit digit_char_def)
qed

subsection \<open>Span replacement\<close>

text \<open>
  C5: replacing the span from \<open>start_line\<close> to \<open>end_line\<close> of a line stream by
  \<open>new_lines\<close> gives a stream of \<open>len(lines) - (end_line - start_line + 1) +
  len(new_lines)\<close> lines.
\<close>

theorem replace_span_length:
  assumes "start_line \<le> end_line" and "end_line < length lines"
  shows "int (length (replace_span lines start_line end_line new_lines))
           = int (length lines) - (int end_line - int start_line + 1) + int (length new_lines)"
  using assms by (simp add: replace_span_def Let_def)

theorem replace_span_length_witness:
  "(1::nat) \<le> 2 \<and> 2 < length [''a'', ''b'', ''c'', ''d''] \<and>
   int (length (replace_span [''a'', ''b'', ''c'', ''d''] 1 2 [''x'', ''y'', ''z''])) = 4 - (2 - 1 + 1) + 3"
  using replace_span_length [of 1 2 "[''a'', ''b'', ''c'', ''d'']" "[''x'', ''y'', ''z'']"]
  by simp

text \<open>
  C6: after the replacement, every line before the span is where it was, the
  replacement lines follow from index \<open>start_line\<close> on, and every line after the span
  follows them, in the order it had; the stream has no other line.
\<close>

theorem replace_span_frame:
  assumes "start_line \<le> end_line" and "end_line < length lines"
  shows "(\<forall>i<start_line. replace_span lines start_line end_line new_lines ! i = lines ! i)
       \<and> (\<forall>k<length new_lines.
             replace_span lines start_line end_line new_lines ! (start_line + k) = new_lines ! k)
       \<and> (\<forall>i. end_line < i \<and> i < length lines \<longrightarrow>
             replace_span lines start_line end_line new_lines
               ! (start_line + length new_lines + (i - (end_line + 1))) = lines ! i)
       \<and> length (replace_span lines start_line end_line new_lines)
           = start_line + length new_lines + (length lines - (end_line + 1))"
proof -
  let ?r = "replace_span lines start_line end_line new_lines"
  have r: "?r = take start_line lines @ new_lines @ drop (end_line + 1) lines"
    by (simp add: replace_span_def Let_def)
  have len: "length (take start_line lines) = start_line"
    using assms by simp
  have "?r ! i = lines ! i" if "i < start_line" for i
    using that len by (simp add: r nth_append)
  moreover have "?r ! (start_line + k) = new_lines ! k" if "k < length new_lines" for k
    using that len by (simp add: r nth_append)
  moreover have "?r ! (start_line + length new_lines + (i - (end_line + 1))) = lines ! i"
    if "end_line < i" "i < length lines" for i
  proof -
    have "?r ! (start_line + length new_lines + (i - (end_line + 1)))
            = drop (end_line + 1) lines ! (i - (end_line + 1))"
      using len by (simp add: r nth_append)
    also have "\<dots> = lines ! i"
      using that by simp
    finally show ?thesis .
  qed
  moreover have "length ?r = start_line + length new_lines + (length lines - (end_line + 1))"
    using len by (simp add: r)
  ultimately show ?thesis by blast
qed

theorem replace_span_frame_witness:
  "(1::nat) \<le> 2 \<and> 2 < length five_lines
   \<and> replace_span five_lines 1 2 three_new_lines ! 0 = five_lines ! 0
   \<and> replace_span five_lines 1 2 three_new_lines ! (1 + 2) = three_new_lines ! 2
   \<and> replace_span five_lines 1 2 three_new_lines
        ! (1 + length three_new_lines + (4 - (2 + 1))) = five_lines ! 4
   \<and> length (replace_span five_lines 1 2 three_new_lines)
       = 1 + length three_new_lines + (length five_lines - (2 + 1))
   \<and> replace_span five_lines 1 2 three_new_lines = [''a'', ''x'', ''y'', ''z'', ''d'', ''e'']"
proof -
  let ?r = "replace_span five_lines 1 2 three_new_lines"
  have h1: "(1::nat) \<le> 2" and h2: "2 < length five_lines"
    by (simp_all add: five_lines_def)
  note frame = replace_span_frame [OF h1 h2, of three_new_lines]
  from frame have before: "\<forall>i<1. ?r ! i = five_lines ! i"
    by (rule conjunct1)
  from frame have inside: "\<forall>k<length three_new_lines. ?r ! (1 + k) = three_new_lines ! k"
    by (rule conjunct1 [OF conjunct2])
  from frame have after: "\<forall>i. 2 < i \<and> i < length five_lines \<longrightarrow>
      ?r ! (1 + length three_new_lines + (i - (2 + 1))) = five_lines ! i"
    by (rule conjunct1 [OF conjunct2 [OF conjunct2]])
  from frame have len: "length ?r = 1 + length three_new_lines + (length five_lines - (2 + 1))"
    by (rule conjunct2 [OF conjunct2 [OF conjunct2]])
  have "(0::nat) < 1" by simp
  with before have c1: "?r ! 0 = five_lines ! 0"
    by blast
  have "2 < length three_new_lines" by (simp add: three_new_lines_def)
  with inside have c2: "?r ! (1 + 2) = three_new_lines ! 2"
    by blast
  have "(2::nat) < 4 \<and> 4 < length five_lines" by (simp add: five_lines_def)
  with after have c3: "?r ! (1 + length three_new_lines + (4 - (2 + 1))) = five_lines ! 4"
    by blast
  have c4: "?r = [''a'', ''x'', ''y'', ''z'', ''d'', ''e'']"
    by (simp add: replace_span_def five_lines_def three_new_lines_def)
  from h1 h2 c1 c2 c3 len c4 show ?thesis
    by (intro conjI)
qed

section \<open>Properties of the regular expressions\<close>

text \<open>
  What a match says about the text, item by item: a literal is the next character, a
  repetition takes a run of characters of its class. A repetition followed by a literal
  outside its class takes the longest run, with nothing to give back.
\<close>

lemma rx_match_lits:
  "rx_match (lits l @ ts) (l @ s) os gs = rx_match ts s os gs"
  by (induction l) simp_all

lemma rx_match_lits_Some:
  "rx_match (lits l @ ts) s os gs = Some res \<Longrightarrow> \<exists>s'. s = l @ s' \<and> rx_match ts s' os gs = Some res"
proof (induction l arbitrary: s)
  case Nil
  then show ?case by simp
next
  case (Cons c l)
  then show ?case
    by (cases s) (auto split: if_splits)
qed

lemma rx_match_Lit_Some:
  "rx_match (Lit c # ts) s os gs = Some res \<Longrightarrow> \<exists>s'. s = c # s' \<and> rx_match ts s' os gs = Some res"
  by (cases s) (auto split: if_splits)

lemma rx_match_Star_Some:
  "rx_match (Star k # ts) s os gs = Some res \<Longrightarrow>
   \<exists>w s'. s = w @ s' \<and> list_all (in_cls k) w \<and> rx_match ts s' os gs = Some res"
proof (induction s)
  case Nil
  then show ?case by simp
next
  case (Cons x xs)
  show ?case
  proof (cases "in_cls k x \<and> rx_match (Star k # ts) xs os gs \<noteq> None")
    case True
    with Cons.prems have "rx_match (Star k # ts) xs os gs = Some res"
      by auto
    from Cons.IH [OF this] obtain w s' where
      "xs = w @ s'" "list_all (in_cls k) w" "rx_match ts s' os gs = Some res"
      by blast
    with True have "x # xs = (x # w) @ s' \<and> list_all (in_cls k) (x # w)
        \<and> rx_match ts s' os gs = Some res"
      by simp
    then show ?thesis by blast
  next
    case False
    with Cons.prems have "rx_match ts (x # xs) os gs = Some res"
      by (auto split: if_splits option.splits)
    then have "x # xs = [] @ (x # xs) \<and> list_all (in_cls k) [] \<and> rx_match ts (x # xs) os gs = Some res"
      by simp
    then show ?thesis by blast
  qed
qed

lemma rx_match_Star_Lit:
  assumes "\<not> in_cls k c"
  shows "rx_match (Star k # Lit c # ts) s os gs
           = rx_match (Lit c # ts) (dropWhile (in_cls k) s) os gs"
proof (induction s)
  case Nil
  show ?case by simp
next
  case (Cons x xs)
  show ?case
  proof (cases "in_cls k x")
    case True
    with assms have "x \<noteq> c" by auto
    with True Cons show ?thesis
      by (simp split: option.splits)
  next
    case False
    then show ?thesis by simp
  qed
qed

lemma dropWhile_run:
  "list_all P w \<Longrightarrow> \<not> P c \<Longrightarrow> dropWhile P (w @ c # s) = c # s"
  by (induction w) simp_all

lemma in_cls_ws: "in_cls ws = py_isspace"
  by (rule ext) simp

lemma rx_match_ws_Lit:
  "\<not> py_isspace c \<Longrightarrow>
   rx_match (Star ws # Lit c # ts) s os gs = rx_match (Lit c # ts) (dropWhile py_isspace s) os gs"
  using rx_match_Star_Lit [of ws c ts s os gs] by (simp add: in_cls_ws)

lemma not_space: "\<not> py_isspace CHR ''(''" "\<not> py_isspace CHR '')''" "\<not> py_isspace CHR ''e''"
  by (simp_all add: py_isspace_def)

text \<open>
  The matcher on the pattern \<^verbatim>\<open>catch\s*\(\s*error\s*\)\<close> succeeds exactly on the
  texts that start with a match as the specification describes it, and leaves the text
  after that match.
\<close>

lemma catch_rx_unfold:
  "rx_match catch_rx (''catch'' @ s) [] [] =
     rx_match (Lit CHR ''('' # Star ws # lits ''error'' @ [Star ws, Lit CHR '')''])
       (dropWhile py_isspace s) [] []"
  by (simp add: catch_rx_def rx_match_ws_Lit not_space)

lemma catch_rx_match:
  assumes "list_all py_isspace w1" "list_all py_isspace w2" "list_all py_isspace w3"
  shows "rx_match catch_rx (''catch'' @ w1 @ ''('' @ w2 @ ''error'' @ w3 @ '')'' @ r) [] [] = Some (r, [])"
proof -
  have 3: "rx_match [Star ws, Lit CHR '')''] (w3 @ '')'' @ r) [] [] = Some (r, [])"
    using dropWhile_run [OF assms(3) not_space(2), of r]
    by (simp add: rx_match_ws_Lit not_space)
  have 2: "rx_match (Star ws # lits ''error'' @ [Star ws, Lit CHR '')''])
             (w2 @ ''error'' @ w3 @ '')'' @ r) [] [] = Some (r, [])"
    using dropWhile_run [OF assms(2) not_space(3), of "''rror'' @ w3 @ '')'' @ r"] 3
    by (simp add: rx_match_ws_Lit not_space)
  have 1: "dropWhile py_isspace (w1 @ ''('' @ w2 @ ''error'' @ w3 @ '')'' @ r)
          = ''('' @ w2 @ ''error'' @ w3 @ '')'' @ r"
    using dropWhile_run [OF assms(1) not_space(1)] by simp
  have "rx_match catch_rx (''catch'' @ w1 @ ''('' @ w2 @ ''error'' @ w3 @ '')'' @ r) [] []
          = rx_match (Lit CHR ''('' # Star ws # lits ''error'' @ [Star ws, Lit CHR '')''])
              (dropWhile py_isspace (w1 @ ''('' @ w2 @ ''error'' @ w3 @ '')'' @ r)) [] []"
    by (rule catch_rx_unfold)
  also have "\<dots> = Some (r, [])"
    unfolding 1 using 2 by simp
  finally show ?thesis .
qed

lemma catch_rx_match_Some:
  assumes "rx_match catch_rx s [] [] = Some res"
  shows "\<exists>w1 w2 w3 r. list_all py_isspace w1 \<and> list_all py_isspace w2 \<and> list_all py_isspace w3
           \<and> s = ''catch'' @ w1 @ ''('' @ w2 @ ''error'' @ w3 @ '')'' @ r \<and> res = (r, [])"
proof -
  from assms obtain s1 where s1: "s = ''catch'' @ s1"
      and m1: "rx_match ([Star ws, Lit CHR ''('', Star ws] @ lits ''error'' @ [Star ws, Lit CHR '')''])
                 s1 [] [] = Some res"
    unfolding catch_rx_def using rx_match_lits_Some by blast
  from m1 have "rx_match (Star ws # Lit CHR ''('' # Star ws # lits ''error'' @ [Star ws, Lit CHR '')''])
                 s1 [] [] = Some res"
    by simp
  from rx_match_Star_Some [OF this] obtain w1 s2 where s2: "s1 = w1 @ s2"
      and w1: "list_all py_isspace w1"
      and m2: "rx_match (Lit CHR ''('' # Star ws # lits ''error'' @ [Star ws, Lit CHR '')''])
                 s2 [] [] = Some res"
    by (auto simp only: in_cls_ws)
  from rx_match_Lit_Some [OF m2] obtain s3 where s3: "s2 = CHR ''('' # s3"
      and m3: "rx_match (Star ws # lits ''error'' @ [Star ws, Lit CHR '')'']) s3 [] [] = Some res"
    by blast
  from rx_match_Star_Some [OF m3] obtain w2 s4 where s4: "s3 = w2 @ s4"
      and w2: "list_all py_isspace w2"
      and m4: "rx_match (lits ''error'' @ [Star ws, Lit CHR '')'']) s4 [] [] = Some res"
    by (auto simp only: in_cls_ws)
  from rx_match_lits_Some [OF m4] obtain s5 where s5: "s4 = ''error'' @ s5"
      and m5: "rx_match [Star ws, Lit CHR '')''] s5 [] [] = Some res"
    by blast
  from rx_match_Star_Some [OF m5] obtain w3 s6 where s6: "s5 = w3 @ s6"
      and w3: "list_all py_isspace w3"
      and m6: "rx_match [Lit CHR '')''] s6 [] [] = Some res"
    by (auto simp only: in_cls_ws)
  from rx_match_Lit_Some [OF m6] obtain r where r: "s6 = CHR '')'' # r" and "res = (r, [])"
    by auto
  with s1 s2 s3 s4 s5 s6 have "s = ''catch'' @ w1 @ ''('' @ w2 @ ''error'' @ w3 @ '')'' @ r"
    by simp
  with w1 w2 w3 \<open>res = (r, [])\<close> show ?thesis
    by blast
qed

lemma catch_at_iff: "catch_at s \<longleftrightarrow> rx_match catch_rx s [] [] \<noteq> None"
proof
  assume "catch_at s"
  then obtain w1 w2 w3 r where "list_all py_isspace w1" "list_all py_isspace w2"
      "list_all py_isspace w3" "s = ''catch'' @ w1 @ ''('' @ w2 @ ''error'' @ w3 @ '')'' @ r"
    by (auto simp: catch_at_def is_catch_match_def)
  with catch_rx_match [of w1 w2 w3 r] show "rx_match catch_rx s [] [] \<noteq> None"
    by simp
next
  assume "rx_match catch_rx s [] [] \<noteq> None"
  then obtain res where "rx_match catch_rx s [] [] = Some res"
    by auto
  from catch_rx_match_Some [OF this] obtain w1 w2 w3 r where
    w: "list_all py_isspace w1" "list_all py_isspace w2" "list_all py_isspace w3"
    and s: "s = (''catch'' @ w1 @ ''('' @ w2 @ ''error'' @ w3 @ '')'') @ r"
    by auto
  from w have "is_catch_match (''catch'' @ w1 @ ''('' @ w2 @ ''error'' @ w3 @ '')'')"
    unfolding is_catch_match_def by blast
  with s show "catch_at s"
    unfolding catch_at_def by blast
qed

lemma catch_rx_match_at:
  assumes "is_catch_match m"
  shows "rx_match catch_rx (m @ r) [] [] = Some (r, [])"
proof -
  from assms obtain w1 w2 w3 where "list_all py_isspace w1" "list_all py_isspace w2"
      "list_all py_isspace w3" "m = ''catch'' @ w1 @ ''('' @ w2 @ ''error'' @ w3 @ '')''"
    by (auto simp: is_catch_match_def)
  with catch_rx_match [of w1 w2 w3 r] show ?thesis
    by simp
qed

text \<open>
  One step of \<^verbatim>\<open>re.sub\<close>: at the end of the text, at a character where no match
  starts, and at the start of a match; then a stretch of text in which no match starts
  is copied as it is.
\<close>

lemma re_sub_Nil: "rx_match p [] [] [] = None \<Longrightarrow> re_sub p t [] = []"
  by (subst re_sub.simps) simp

lemma re_sub_copy:
  "rx_match p (c # cs) [] [] = None \<Longrightarrow> re_sub p t (c # cs) = c # re_sub p t cs"
  by (subst re_sub.simps) simp

lemma re_sub_replace:
  "rx_match p s [] [] = Some (r, gs) \<Longrightarrow> length r < length s \<Longrightarrow>
   re_sub p t s = expand t gs @ re_sub p t r"
  by (subst re_sub.simps) simp

lemma re_sub_skip:
  assumes "\<forall>i<length pre. rx_match p (drop i (pre @ rest)) [] [] = None"
  shows "re_sub p t (pre @ rest) = pre @ re_sub p t rest"
  using assms
proof (induction pre)
  case Nil
  show ?case by simp
next
  case (Cons c pre)
  from Cons.prems have "rx_match p (drop 0 ((c # pre) @ rest)) [] [] = None"
    by blast
  then have here: "rx_match p (c # pre @ rest) [] [] = None"
    by simp
  have "\<forall>i<length pre. rx_match p (drop i (pre @ rest)) [] [] = None"
  proof (intro allI impI)
    fix i
    assume "i < length pre"
    then have "Suc i < length (c # pre)" by simp
    with Cons.prems have "rx_match p (drop (Suc i) ((c # pre) @ rest)) [] [] = None"
      by blast
    then show "rx_match p (drop i (pre @ rest)) [] [] = None"
      by simp
  qed
  from Cons.IH [OF this] re_sub_copy [OF here] show ?case
    by simp
qed

lemma re_sub_no_match:
  assumes "\<forall>i\<le>length s. rx_match p (drop i s) [] [] = None"
  shows "re_sub p t s = s"
proof -
  from assms have "rx_match p (drop (length s) s) [] [] = None"
    by blast
  then have "re_sub p t [] = []"
    by (simp add: re_sub_Nil)
  moreover from assms have "\<forall>i<length s. rx_match p (drop i (s @ [])) [] [] = None"
    by simp
  from re_sub_skip [OF this] have "re_sub p t (s @ []) = s @ re_sub p t []" .
  ultimately show ?thesis
    by simp
qed

lemma catch_free_skip:
  assumes "catch_free pre rest"
  shows "re_sub catch_rx catch_repl (pre @ rest) = pre @ re_sub catch_rx catch_repl rest"
proof (rule re_sub_skip)
  from assms show "\<forall>i<length pre. rx_match catch_rx (drop i (pre @ rest)) [] [] = None"
    unfolding catch_free_def catch_at_iff by blast
qed

lemma is_catch_match_not_Nil: "is_catch_match m \<Longrightarrow> m \<noteq> []"
  by (auto simp: is_catch_match_def)

lemma catch_match_replaced:
  assumes "is_catch_match m"
  shows "re_sub catch_rx catch_repl (m @ rest) = ''catch (_error)'' @ re_sub catch_rx catch_repl rest"
proof -
  from is_catch_match_not_Nil [OF assms] have "length rest < length (m @ rest)"
    by simp
  from re_sub_replace [OF catch_rx_match_at [OF assms] this]
  show ?thesis
    by (simp add: catch_repl_def)
qed

subsection \<open>The rule for catch blocks\<close>

lemma is_catch_match_iff: "is_catch_match m \<longleftrightarrow> rx_match catch_rx m [] [] = Some ([], [])"
proof
  assume "is_catch_match m"
  from catch_rx_match_at [OF this, of "[]"] show "rx_match catch_rx m [] [] = Some ([], [])"
    by simp
next
  assume "rx_match catch_rx m [] [] = Some ([], [])"
  from catch_rx_match_Some [OF this] show "is_catch_match m"
    unfolding is_catch_match_def by auto
qed

lemma catch_free_iff:
  "catch_free pre rest \<longleftrightarrow>
     list_all (\<lambda>i. rx_match catch_rx (drop i (pre @ rest)) [] [] = None) [0..<length pre]"
  unfolding catch_free_def catch_at_iff list_all_iff set_upt not_not
  by auto

lemma catch_example_matches:
  "is_catch_match (catch_example ! 1)" "is_catch_match (catch_example ! 3)"
  "is_catch_match (catch_example ! 5)"
  by (simp_all add: catch_example_def is_catch_match_iff catch_rx_def py_isspace_def newline_def)

lemma catch_example_free:
  "catch_free (catch_example ! 0)
     (catch_example ! 1 @ catch_example ! 2 @ catch_example ! 3 @ catch_example ! 4
        @ catch_example ! 5 @ catch_example ! 6)"
  "catch_free (catch_example ! 2)
     (catch_example ! 3 @ catch_example ! 4 @ catch_example ! 5 @ catch_example ! 6)"
  "catch_free (catch_example ! 4) (catch_example ! 5 @ catch_example ! 6)"
  "catch_free (catch_example ! 6) []"
  by (simp_all add: catch_example_def catch_free_iff catch_rx_def py_isspace_def newline_def)

text \<open>
  C7: in a text with three occurrences of a match of \<^verbatim>\<open>catch\s*\(\s*error\s*\)\<close>
  (the matches \<open>m1\<close>, \<open>m2\<close>, \<open>m3\<close>, and no match starting anywhere in the pieces
  \<open>p0\<close> to \<open>p3\<close> around them), the one call of \<^verbatim>\<open>re.sub\<close> for that rule
  replaces each of the three by \<^verbatim>\<open>catch (_error)\<close> and leaves the pieces as they are.
\<close>

theorem catch_rule_rewrites_three_occurrences:
  assumes "is_catch_match m1" and "is_catch_match m2" and "is_catch_match m3"
    and "catch_free p0 (m1 @ p1 @ m2 @ p2 @ m3 @ p3)"
    and "catch_free p1 (m2 @ p2 @ m3 @ p3)"
    and "catch_free p2 (m3 @ p3)"
    and "catch_free p3 []"
  shows "re_sub catch_rx catch_repl (p0 @ m1 @ p1 @ m2 @ p2 @ m3 @ p3)
           = p0 @ ''catch (_error)'' @ p1 @ ''catch (_error)'' @ p2 @ ''catch (_error)'' @ p3"
proof -
  have "rx_match catch_rx [] [] [] = None"
    by (simp add: catch_rx_def)
  then have end_: "re_sub catch_rx catch_repl [] = []"
    by (rule re_sub_Nil)
  have "re_sub catch_rx catch_repl (p3 @ []) = p3 @ re_sub catch_rx catch_repl []"
    using assms(7) by (rule catch_free_skip)
  with end_ have 3: "re_sub catch_rx catch_repl p3 = p3"
    by simp
  have "re_sub catch_rx catch_repl (p2 @ m3 @ p3)
          = p2 @ re_sub catch_rx catch_repl (m3 @ p3)"
    using assms(6) by (rule catch_free_skip)
  also have "\<dots> = p2 @ ''catch (_error)'' @ p3"
    by (simp only: catch_match_replaced [OF assms(3)] 3)
  finally have 2: "re_sub catch_rx catch_repl (p2 @ m3 @ p3) = p2 @ ''catch (_error)'' @ p3" .
  have "re_sub catch_rx catch_repl (p1 @ m2 @ p2 @ m3 @ p3)
          = p1 @ re_sub catch_rx catch_repl (m2 @ p2 @ m3 @ p3)"
    using assms(5) by (rule catch_free_skip)
  also have "\<dots> = p1 @ ''catch (_error)'' @ p2 @ ''catch (_error)'' @ p3"
    by (simp only: catch_match_replaced [OF assms(2)] 2)
  finally have 1: "re_sub catch_rx catch_repl (p1 @ m2 @ p2 @ m3 @ p3)
                     = p1 @ ''catch (_error)'' @ p2 @ ''catch (_error)'' @ p3" .
  have "re_sub catch_rx catch_repl (p0 @ m1 @ p1 @ m2 @ p2 @ m3 @ p3)
          = p0 @ re_sub catch_rx catch_repl (m1 @ p1 @ m2 @ p2 @ m3 @ p3)"
    using assms(4) by (rule catch_free_skip)
  also have "\<dots> = p0 @ ''catch (_error)'' @ p1 @ ''catch (_error)'' @ p2 @ ''catch (_error)'' @ p3"
    by (simp only: catch_match_replaced [OF assms(1)] 1)
  finally show ?thesis .
qed

theorem catch_rule_rewrites_three_occurrences_witness:
  "is_catch_match (catch_example ! 1) \<and> is_catch_match (catch_example ! 3)
   \<and> is_catch_match (catch_example ! 5)
   \<and> catch_free (catch_example ! 0)
         (catch_example ! 1 @ catch_example ! 2 @ catch_example ! 3 @ catch_example ! 4
            @ catch_example ! 5 @ catch_example ! 6)
   \<and> catch_free (catch_example ! 2)
         (catch_example ! 3 @ catch_example ! 4 @ catch_example ! 5 @ catch_example ! 6)
   \<and> catch_free (catch_example ! 4) (catch_example ! 5 @ catch_example ! 6)
   \<and> catch_free (catch_example ! 6) []
   \<and> re_sub catch_rx catch_repl (concat catch_example)
       = ''try { a } catch (_error) { b } catch (_error); catch (_error) catch (errors)''"
proof -
  have "concat catch_example
          = catch_example ! 0 @ catch_example ! 1 @ catch_example ! 2 @ catch_example ! 3
              @ catch_example ! 4 @ catch_example ! 5 @ catch_example ! 6"
    by (simp add: catch_example_def)
  moreover have "catch_example ! 0 @ ''catch (_error)'' @ catch_example ! 2 @ ''catch (_error)''
                   @ catch_example ! 4 @ ''catch (_error)'' @ catch_example ! 6
          = ''try { a } catch (_error) { b } catch (_error); catch (_error) catch (errors)''"
    by (simp add: catch_example_def)
  ultimately have "re_sub catch_rx catch_repl (concat catch_example)
       = ''try { a } catch (_error) { b } catch (_error); catch (_error) catch (errors)''"
    using catch_rule_rewrites_three_occurrences
            [OF catch_example_matches catch_example_free]
    by simp
  with catch_example_matches catch_example_free show ?thesis
    by (intro conjI)
qed

section \<open>Properties of \<^verbatim>\<open>fix_remaining_syntax.py\<close>\<close>

subsection \<open>A text that no rule matches\<close>

lemma re_sub_unmatched: "no_match p text \<Longrightarrow> re_sub p t text = text"
  unfolding no_match_def by (rule re_sub_no_match)

lemma apply_rules_no_match:
  assumes "\<forall>(p, t)\<in>set rules. no_match p text"
  shows "apply_rules text = text"
proof -
  from assms have "no_match stringify_rx text" "no_match arrow_brace_rx text"
      "no_match arrow_paren_rx text" "no_match logger_rx text" "no_match comma_rx text"
      "no_match catch_rx text" "no_match arrow_return_rx text"
    by (simp_all add: rules_def)
  then show ?thesis
    by (simp add: apply_rules_def Let_def re_sub_unmatched)
qed

lemma no_match_iff:
  "no_match p text \<longleftrightarrow>
     list_all (\<lambda>i. rx_match p (drop i text) [] [] = None) [0..<Suc (length text)]"
  unfolding no_match_def list_all_iff set_upt
  by (auto simp: less_Suc_eq_le)

lemma clean_text_no_match: "\<forall>(p, t)\<in>set rules. no_match p clean_text"
  by (simp add: rules_def no_match_iff clean_text_def stringify_rx_def arrow_brace_rx_def
        arrow_paren_rx_def logger_rx_def comma_rx_def catch_rx_def arrow_return_rx_def
        py_isspace_def py_isword_def newline_def)

text \<open>
  C8: when none of the seven patterns matches anywhere in the text of a file, the
  seven calls give the text back, and \<^verbatim>\<open>fix_file_syntax_errors\<close> finds the content
  equal to the original, does not write the file, prints that no error was found and
  returns \<^verbatim>\<open>False\<close>.
\<close>

theorem no_match_leaves_file:
  assumes "\<forall>(p, t)\<in>set rules. no_match p text" and "read_file path w = Inr text"
  shows "apply_rules text = text
       \<and> fix_file_syntax_errors path w
           = Returns False (w\<lparr>stdout := stdout w @ [''No syntax errors found in '' @ path]\<rparr>)"
proof -
  from assms(2) have "path_exists path w"
    by (cases "fs w path") (simp_all add: read_file_def path_exists_def)
  with apply_rules_no_match [OF assms(1)] assms(2) show ?thesis
    by (simp add: fix_file_syntax_errors_def Let_def print_def)
qed

theorem no_match_leaves_file_witness:
  "no_match stringify_rx clean_text \<and> no_match arrow_brace_rx clean_text
   \<and> no_match arrow_paren_rx clean_text \<and> no_match logger_rx clean_text
   \<and> no_match comma_rx clean_text \<and> no_match catch_rx clean_text
   \<and> no_match arrow_return_rx clean_text
   \<and> apply_rules clean_text = clean_text
   \<and> fix_file_syntax_errors ''a.ts'' \<lparr>fs = [''a.ts'' \<mapsto> Text clean_text], stdout = []\<rparr>
       = Returns False \<lparr>fs = [''a.ts'' \<mapsto> Text clean_text],
                        stdout = [''No syntax errors found in a.ts'']\<rparr>"
proof -
  have "read_file ''a.ts'' \<lparr>fs = [''a.ts'' \<mapsto> Text clean_text], stdout = []\<rparr> = Inr clean_text"
    by (simp add: read_file_def)
  from no_match_leaves_file [OF clean_text_no_match this] clean_text_no_match
  show ?thesis
    by (simp add: rules_def)
qed

subsection \<open>The loop over the files\<close>

text \<open>
  One call of the repair returns exactly when what stands at its path is repairable.
  Then it changes the store at its own path only, to the rules applied to the text
  there, and prints one line about that path. Otherwise it raises and leaves the world
  as it was.
\<close>

lemma repair_node_0: "repair_node 0 x = x"
  by (cases x) simp_all

lemma repair_node_Suc: "repair_node n (repair_node (Suc 0) x) = repair_node (Suc n) x"
  by (cases x) (simp_all add: funpow_swap1)

lemma repairable_repair_node: "repairable (map_option (repair_node n) x) = repairable x"
proof (cases x)
  case None
  then show ?thesis by simp
next
  case (Some y)
  then show ?thesis by (cases y) simp_all
qed

lemma fix_file_syntax_errors_returns:
  assumes "repairable (fs w path)"
  shows "\<exists>r w1. fix_file_syntax_errors path w = Returns r w1
           \<and> fs w1 = (fs w)(path := map_option (repair_node 1) (fs w path))
           \<and> (\<exists>msg\<in>report_lines path. stdout w1 = stdout w @ [msg])"
proof (cases "fs w path")
  case None
  then have "(fs w)(path := None) = fs w"
    by (simp add: fun_upd_idem)
  with None show ?thesis
    by (auto simp: fix_file_syntax_errors_def path_exists_def print_def report_lines_def)
next
  case (Some y)
  then have here: "(fs w)(path \<mapsto> y) = fs w"
    by (simp add: fun_upd_idem)
  show ?thesis
  proof (cases y)
    case (Text t)
    with Some here show ?thesis
      by (auto simp: fix_file_syntax_errors_def path_exists_def read_file_def write_file_def
            print_def report_lines_def Let_def)
  next
    case (ReadOnly t)
    with Some here assms show ?thesis
      by (auto simp: fix_file_syntax_errors_def path_exists_def read_file_def print_def
            report_lines_def Let_def)
  qed (use Some assms in simp_all)
qed


text \<open>The loop over files that are all repairable.\<close>

lemma fix_files_effect:
  assumes "\<forall>p\<in>set files. repairable (fs w p)"
  shows "\<exists>n w'. fix_files files fixed_count w = Returns n w'
           \<and> (\<forall>path. fs w' path = map_option (repair_node (count_list files path)) (fs w path))
           \<and> length (stdout w') = length (stdout w) + length files
           \<and> take (length (stdout w)) (stdout w') = stdout w
           \<and> (\<forall>k<length files. stdout w' ! (length (stdout w) + k) \<in> report_lines (files ! k))"
  using assms
proof (induction files arbitrary: fixed_count w)
  case Nil
  have "map_option (repair_node 0) x = x" for x :: "char node option"
    by (cases x) (simp_all add: repair_node_0)
  then show ?case by simp
next
  case (Cons p rest)
  from Cons.prems have "repairable (fs w p)"
    by simp
  from fix_file_syntax_errors_returns [OF this] obtain r w1 msg where
    step: "fix_file_syntax_errors p w = Returns r w1"
    and fs1: "fs w1 = (fs w)(p := map_option (repair_node 1) (fs w p))"
    and msg: "msg \<in> report_lines p" and out1: "stdout w1 = stdout w @ [msg]"
    by blast
  let ?c = "if r then fixed_count + 1 else fixed_count"
  have run: "fix_files (p # rest) fixed_count w = fix_files rest ?c w1"
    using step by simp
  have "\<forall>q\<in>set rest. repairable (fs w1 q)"
    using Cons.prems fs1 by (simp add: repairable_repair_node)
  from Cons.IH [OF this, of ?c] obtain n w' where
    res: "fix_files rest ?c w1 = Returns n w'"
    and fs': "\<forall>path. fs w' path = map_option (repair_node (count_list rest path)) (fs w1 path)"
    and len: "length (stdout w') = length (stdout w1) + length rest"
    and pre: "take (length (stdout w1)) (stdout w') = stdout w1"
    and rep: "\<forall>k<length rest. stdout w' ! (length (stdout w1) + k) \<in> report_lines (rest ! k)"
    by blast
  have "fs w' path = map_option (repair_node (count_list (p # rest) path)) (fs w path)" for path
  proof (cases "path = p")
    case True
    have "fs w' path = map_option (repair_node (count_list rest path)) (fs w1 path)"
      using fs' by blast
    also have "\<dots> = map_option (repair_node (Suc (count_list rest path))) (fs w path)"
      using True fs1 by (cases "fs w path") (simp_all add: repair_node_Suc)
    finally show ?thesis using True by simp
  next
    case False
    with fs' fs1 show ?thesis by simp
  qed
  moreover have "length (stdout w') = length (stdout w) + length (p # rest)"
    using len out1 by simp
  moreover have "take (length (stdout w)) (stdout w') = stdout w"
  proof -
    from pre have "take (length (stdout w)) (take (length (stdout w1)) (stdout w'))
                     = take (length (stdout w)) (stdout w1)"
      by simp
    then show ?thesis
      using out1 by (simp add: min_def)
  qed
  moreover have "stdout w' ! (length (stdout w) + k) \<in> report_lines ((p # rest) ! k)"
    if "k < length (p # rest)" for k
  proof (cases k)
    case 0
    have "stdout w' ! length (stdout w) = take (length (stdout w1)) (stdout w') ! length (stdout w)"
      using out1 by simp
    also have "\<dots> = msg"
      unfolding pre using out1 by simp
    finally show ?thesis
      using 0 msg by simp
  next
    case (Suc j)
    with that have "j < length rest" by simp
    with rep have "stdout w' ! (length (stdout w1) + j) \<in> report_lines (rest ! j)"
      by blast
    with Suc out1 show ?thesis by simp
  qed
  ultimately show ?case
    unfolding run res by blast
qed



text \<open>
  So \<^verbatim>\<open>main\<close>, on its fixed list of five files, when they are all repairable, leaves
  at each path the rules applied to the text that was there.
\<close>

lemma main_repairs_every_file:
  assumes "\<forall>p\<in>set files_to_fix. repairable (fs w p)"
  shows "\<exists>w'. main w = Returns () w'
           \<and> fs w' path = map_option (repair_node (count_list files_to_fix path)) (fs w path)"
proof -
  from fix_files_effect [OF assms, of 0] obtain n w' where
    "fix_files files_to_fix 0 w = Returns n w'"
    "\<forall>path. fs w' path = map_option (repair_node (count_list files_to_fix path)) (fs w path)"
    by blast
  then show ?thesis
    by (simp add: main_def print_def)
qed











section \<open>Properties of \<^verbatim>\<open>fix_test_utils.py\<close>\<close>

subsection \<open>The loop over the lines\<close>

text \<open>
  Each loop appends to the output one line for each line it reads, the line itself or
  its rewritten closer, and moves the index by as much.
\<close>

lemma close_block_output:
  assumes "i \<le> length lines"
  shows "\<exists>new. st_fixed_lines (close_block lines i b p fixed) = fixed @ new
             \<and> st_index (close_block lines i b p fixed) = i + length new
             \<and> i + length new \<le> length lines
             \<and> list_all2 copied_or_closed (take (length new) (drop i lines)) new"
  using assms
proof (induction lines i b p fixed rule: close_block.induct)
  case (1 lines i b p fixed)
  let ?b' = "b + (py_count (lines ! i) CHR ''{'' - py_count (lines ! i) CHR ''}'')"
  show ?case
  proof (cases "i < length lines \<and> (b > 0 \<or> p > 0)")
    case run: True
    then have i: "i < length lines" by simp
    then have d: "drop i lines = lines ! i # drop (i + 1) lines"
      by (simp add: Cons_nth_drop_Suc)
    show ?thesis
    proof (cases "?b' = 0 \<and> py_strip (lines ! i) = ''},''")
      case True
      let ?new = "[py_replace ''},'' ''}),'' (lines ! i)]"
      have "close_block lines i b p fixed
              = \<lparr>st_index = i + 1, st_bracket_count = ?b', st_paren_count = p,
                 st_fixed_lines = fixed @ ?new\<rparr>"
        using run True by (subst close_block.simps) (simp add: Let_def)
      moreover have "list_all2 copied_or_closed (take (length ?new) (drop i lines)) ?new"
        using True d by (simp add: copied_or_closed_def)
      ultimately have "st_fixed_lines (close_block lines i b p fixed) = fixed @ ?new
             \<and> st_index (close_block lines i b p fixed) = i + length ?new
             \<and> i + length ?new \<le> length lines
             \<and> list_all2 copied_or_closed (take (length ?new) (drop i lines)) ?new"
        using i by simp
      then show ?thesis by blast
    next
      case False
      have eq: "close_block lines i b p fixed = close_block lines (i + 1) ?b' p (fixed @ [lines ! i])"
        using run False by (subst close_block.simps) (auto simp: Let_def)
      from i have "i + 1 \<le> length lines" by simp
      from "1.IH" [OF run refl refl False this] obtain new where
        new: "st_fixed_lines (close_block lines (i + 1) ?b' p (fixed @ [lines ! i]))
                = (fixed @ [lines ! i]) @ new"
          "st_index (close_block lines (i + 1) ?b' p (fixed @ [lines ! i])) = i + 1 + length new"
          "i + 1 + length new \<le> length lines"
          "list_all2 copied_or_closed (take (length new) (drop (i + 1) lines)) new"
        by blast
      let ?new = "lines ! i # new"
      have "list_all2 copied_or_closed (take (length ?new) (drop i lines)) ?new"
        using new(4) d by (simp add: copied_or_closed_def)
      with new(1,2,3) have "st_fixed_lines (close_block lines i b p fixed) = fixed @ ?new
             \<and> st_index (close_block lines i b p fixed) = i + length ?new
             \<and> i + length ?new \<le> length lines
             \<and> list_all2 copied_or_closed (take (length ?new) (drop i lines)) ?new"
        unfolding eq by simp
      then show ?thesis by blast
    qed
  next
    case False
    then have "close_block lines i b p fixed
                 = \<lparr>st_index = i, st_bracket_count = b, st_paren_count = p,
                    st_fixed_lines = fixed\<rparr>"
      by (subst close_block.simps) auto
    with "1.prems" have "st_fixed_lines (close_block lines i b p fixed) = fixed @ []
             \<and> st_index (close_block lines i b p fixed) = i + length ([] :: string list)
             \<and> i + length ([] :: string list) \<le> length lines
             \<and> list_all2 copied_or_closed (take (length ([] :: string list)) (drop i lines)) []"
      by simp
    then show ?thesis by blast
  qed
qed

lemma fix_lines_output:
  assumes "i \<le> length lines"
  shows "\<exists>new. fix_lines lines i fixed = fixed @ new
             \<and> list_all2 copied_or_closed (drop i lines) new"
  using assms
proof (induction lines i fixed rule: fix_lines.induct)
  case (1 lines i fixed)
  show ?case
  proof (cases "i < length lines")
    case run: True
    then have d: "drop i lines = lines ! i # drop (i + 1) lines"
      by (simp add: Cons_nth_drop_Suc)
    show ?thesis
    proof (cases "re_match opener_rx (lines ! i)")
      case True
      let ?st = "close_block lines (i + 1) 1 1 (fixed @ [lines ! i])"
      have eq: "fix_lines lines i fixed = fix_lines lines (st_index ?st) (st_fixed_lines ?st)"
        using run True by (subst fix_lines.simps) (simp add: Let_def)
      from run have "i + 1 \<le> length lines" by simp
      from close_block_output [OF this, of 1 1 "fixed @ [lines ! i]"] obtain new1 where
        new1: "st_fixed_lines ?st = (fixed @ [lines ! i]) @ new1"
          "st_index ?st = i + 1 + length new1" "i + 1 + length new1 \<le> length lines"
          "list_all2 copied_or_closed (take (length new1) (drop (i + 1) lines)) new1"
        by blast
      from new1(2,3) have "st_index ?st \<le> length lines" by simp
      from "1.IH"(1) [OF run refl True refl this] obtain new2 where
        new2: "fix_lines lines (st_index ?st) (st_fixed_lines ?st) = st_fixed_lines ?st @ new2"
          "list_all2 copied_or_closed (drop (st_index ?st) lines) new2"
        by blast
      let ?new = "lines ! i # new1 @ new2"
      have "drop (st_index ?st) lines = drop (length new1) (drop (i + 1) lines)"
        unfolding new1(2) by (simp add: add.commute)
      then have "drop (i + 1) lines
              = take (length new1) (drop (i + 1) lines) @ drop (st_index ?st) lines"
        by (simp only: append_take_drop_id)
      then have "list_all2 copied_or_closed (drop (i + 1) lines) (new1 @ new2)"
        using list_all2_appendI [OF new1(4) new2(2)] by simp
      then have "list_all2 copied_or_closed (drop i lines) ?new"
        using d by (simp add: copied_or_closed_def)
      moreover have "fix_lines lines i fixed = fixed @ ?new"
        using eq new2(1) new1(1) by simp
      ultimately show ?thesis by blast
    next
      case False
      have eq: "fix_lines lines i fixed = fix_lines lines (i + 1) (fixed @ [lines ! i])"
        using run False by (subst fix_lines.simps) (simp add: Let_def)
      from run have "i + 1 \<le> length lines" by simp
      from "1.IH"(2) [OF run refl False this] obtain new where
        new: "fix_lines lines (i + 1) (fixed @ [lines ! i]) = (fixed @ [lines ! i]) @ new"
          "list_all2 copied_or_closed (drop (i + 1) lines) new"
        by blast
      have "list_all2 copied_or_closed (drop i lines) (lines ! i # new)"
        using new(2) d by (simp add: copied_or_closed_def)
      moreover have "fix_lines lines i fixed = fixed @ (lines ! i # new)"
        using eq new(1) by simp
      ultimately show ?thesis by blast
    qed
  next
    case False
    then have "fix_lines lines i fixed = fixed"
      by (subst fix_lines.simps) simp
    with False "1.prems" show ?thesis by simp
  qed
qed

text \<open>
  Inside a block opened at line \<open>opener\<close>, \<^verbatim>\<open>bracket_count\<close> is the brace depth
  of the specification from that line. \<^verbatim>\<open>paren_count\<close> is never changed, so the
  condition of the inner loop fails only at the end of the lines: when the closing
  pattern comes at no later line, the inner loop copies all of them.
\<close>

lemma close_block_unclosed:
  assumes "0 < p" and "opener < j" and "j \<le> length lines"
    and "b = running_depth CHR ''{'' CHR ''}'' lines opener (j - 1)"
    and "\<forall>k. opener < k \<and> k < length lines \<longrightarrow> \<not> closes_at lines opener k"
  shows "st_index (close_block lines j b p fixed) = length lines
       \<and> st_fixed_lines (close_block lines j b p fixed) = fixed @ drop j lines"
  using assms
proof (induction "length lines - j" arbitrary: j b fixed)
  case 0
  then have "j = length lines" by simp
  then have "close_block lines j b p fixed
               = \<lparr>st_index = j, st_bracket_count = b, st_paren_count = p, st_fixed_lines = fixed\<rparr>"
    by (subst close_block.simps) simp
  with \<open>j = length lines\<close> show ?case by simp
next
  case (Suc n)
  then have j: "j < length lines" by simp
  let ?b' = "b + (py_count (lines ! j) CHR ''{'' - py_count (lines ! j) CHR ''}'')"
  have b': "?b' = running_depth CHR ''{'' CHR ''}'' lines opener j"
    using running_depth_step [OF Suc.prems(2), of "CHR ''{''" "CHR ''}''" lines] Suc.prems(4)
    by (simp add: line_delta_def)
  from Suc.prems(2,5) j have "\<not> closes_at lines opener j"
    by blast
  with b' have open_: "\<not> (?b' = 0 \<and> py_strip (lines ! j) = ''},'')"
    by (simp add: closes_at_def)
  have eq: "close_block lines j b p fixed = close_block lines (j + 1) ?b' p (fixed @ [lines ! j])"
    using j Suc.prems(1) open_ by (subst close_block.simps) (auto simp: Let_def)
  have "st_index (close_block lines (j + 1) ?b' p (fixed @ [lines ! j])) = length lines
      \<and> st_fixed_lines (close_block lines (j + 1) ?b' p (fixed @ [lines ! j]))
          = (fixed @ [lines ! j]) @ drop (j + 1) lines"
  proof (rule Suc.hyps(1))
    show "n = length lines - (j + 1)" using Suc.hyps(2) by simp
    show "0 < p" by (rule Suc.prems(1))
    show "opener < j + 1" using Suc.prems(2) by simp
    show "j + 1 \<le> length lines" using j by simp
    show "?b' = running_depth CHR ''{'' CHR ''}'' lines opener (j + 1 - 1)" using b' by simp
    show "\<forall>k. opener < k \<and> k < length lines \<longrightarrow> \<not> closes_at lines opener k"
      by (rule Suc.prems(5))
  qed
  with j show ?case
    unfolding eq by (simp add: Cons_nth_drop_Suc)
qed

lemma fix_lines_unclosed:
  assumes "i < length lines" and "re_match opener_rx (lines ! i)"
    and "\<forall>k. i < k \<and> k < length lines \<longrightarrow> \<not> closes_at lines i k"
  shows "fix_lines lines i fixed = fixed @ drop i lines"
proof -
  let ?st = "close_block lines (i + 1) 1 1 (fixed @ [lines ! i])"
  have "st_index ?st = length lines
      \<and> st_fixed_lines ?st = (fixed @ [lines ! i]) @ drop (i + 1) lines"
  proof (rule close_block_unclosed [OF _ _ _ _ assms(3)])
    show "(0::int) < 1" by simp
    show "i < i + 1" by simp
    show "i + 1 \<le> length lines" using assms(1) by simp
    show "1 = running_depth CHR ''{'' CHR ''}'' lines i (i + 1 - 1)"
      by (simp add: running_depth_start)
  qed
  then have st: "st_index ?st = length lines" "st_fixed_lines ?st = fixed @ drop i lines"
    using assms(1) by (simp_all add: Cons_nth_drop_Suc)
  have "fix_lines lines i fixed = fix_lines lines (st_index ?st) (st_fixed_lines ?st)"
    using assms(1,2) by (subst fix_lines.simps) (simp add: Let_def)
  also have "\<dots> = fixed @ drop i lines"
    unfolding st by (subst fix_lines.simps) simp
  finally show ?thesis .
qed

text \<open>
  The script as a whole writes the output lines joined by the newline.
\<close>

lemma fix_test_utils_script_writes_lines:
  assumes "fs w ''src/testing/test-utils.ts'' = Some (Text content)"
  shows "\<exists>w'. fix_test_utils_script w = Returns () w'
           \<and> fs w' ''src/testing/test-utils.ts''
               = Some (Text (py_join [newline] (fix_lines (py_split newline content) 0 [])))
           \<and> list_all2 copied_or_closed (py_split newline content)
                (fix_lines (py_split newline content) 0 [])"
  using assms fix_lines_output [of 0 "py_split newline content" "[]"]
  by (simp add: fix_test_utils_script_def read_file_def write_file_def Let_def print_def)

lemma unclosed_example_opener: "re_match opener_rx (unclosed_example ! 1)"
  by (simp add: unclosed_example_def re_match_def opener_rx_def py_isspace_def)

lemma unclosed_example_open:
  "\<not> closes_at unclosed_example 1 2" "\<not> closes_at unclosed_example 1 3"
  by (simp_all add: unclosed_example_def closes_at_def running_depth_def line_delta_def
        py_count_def upt_rec)

lemma unclosed_example_never:
  "\<forall>k. 1 < k \<and> k < length unclosed_example \<longrightarrow> \<not> closes_at unclosed_example 1 k"
proof (intro allI impI)
  fix k
  assume "1 < k \<and> k < length unclosed_example"
  then have "k = 2 \<or> k = 3"
    by (auto simp: unclosed_example_def)
  with unclosed_example_open show "\<not> closes_at unclosed_example 1 k"
    by blast
qed

lemma unclosed_example_result: "fix_lines unclosed_example 0 [] = unclosed_example"
  by (simp add: unclosed_example_def fix_lines.simps close_block.simps re_match_def
        opener_rx_def py_isspace_def py_count_def py_strip_def Let_def)

text \<open>
  C10: the loops of \<^verbatim>\<open>fix_test_utils.py\<close> are total functions of the line stream
  (each iteration reads the line at an index below \<^verbatim>\<open>len(lines)\<close> and moves the
  index on, so no read is out of range and no line is read twice). The output has one
  line for each input line, in order: the line itself, or the line with \<^verbatim>\<open>},\<close>
  rewritten when its stripped text is \<^verbatim>\<open>},\<close>. When the outer loop is at a line
  that opens an arrow function and the closing pattern occurs at no later line, the
  outer loop ends with all the remaining lines appended unchanged.
\<close>

theorem arrow_scan_copies_each_line_once:
  "list_all2 copied_or_closed lines (fix_lines lines 0 [])
   \<and> (i < length lines \<and> re_match opener_rx (lines ! i)
        \<and> (\<forall>k. i < k \<and> k < length lines \<longrightarrow> \<not> closes_at lines i k)
       \<longrightarrow> fix_lines lines i fixed_lines = fixed_lines @ drop i lines)"
proof -
  from fix_lines_output [of 0 lines "[]"]
  have "list_all2 copied_or_closed lines (fix_lines lines 0 [])"
    by auto
  with fix_lines_unclosed [of i lines fixed_lines] show ?thesis
    by blast
qed

theorem arrow_scan_copies_each_line_once_witness:
  "list_all2 copied_or_closed unclosed_example (fix_lines unclosed_example 0 [])
   \<and> 1 < length unclosed_example \<and> re_match opener_rx (unclosed_example ! 1)
   \<and> \<not> closes_at unclosed_example 1 2 \<and> \<not> closes_at unclosed_example 1 3
   \<and> fix_lines unclosed_example 1 [''x''] = [''x''] @ drop 1 unclosed_example
   \<and> fix_lines unclosed_example 0 [] = unclosed_example"
proof -
  have len: "1 < length unclosed_example"
    by (simp add: unclosed_example_def)
  note inst = arrow_scan_copies_each_line_once [of unclosed_example 1 "[''x'']"]
  from inst have "list_all2 copied_or_closed unclosed_example (fix_lines unclosed_example 0 [])"
    by (rule conjunct1)
  moreover from inst len unclosed_example_opener unclosed_example_never
  have "fix_lines unclosed_example 1 [''x''] = [''x''] @ drop 1 unclosed_example"
    by blast
  ultimately show ?thesis
    using len unclosed_example_opener unclosed_example_open unclosed_example_result
    by (intro conjI)
qed

subsection \<open>The scenario of the three lines\<close>

text \<open>
  The outer loop enters a block only at a line whose key is quoted: on the three lines
  as the scenario gives them it copies every line, and with the key quoted it enters
  the block after line 0 and rewrites line 2.
\<close>

lemma arrow_example_not_opener:
  "\<not> re_match opener_rx (arrow_example ! 0) \<and> fix_lines arrow_example 0 [] = arrow_example"
  by (simp add: arrow_example_def fix_lines.simps re_match_def opener_rx_def py_isspace_def
        Let_def)

lemma quoted_arrow_example_opener: "re_match opener_rx (quoted_arrow_example ! 0)"
  by (simp add: quoted_arrow_example_def re_match_def opener_rx_def py_isspace_def)

lemma quoted_arrow_example_block:
  \<open>close_block quoted_arrow_example 1 1 1 [quoted_arrow_example ! 0]
     = \<lparr>st_index = 3, st_bracket_count = 0, st_paren_count = 1,
        st_fixed_lines = [CHR 0x27 # ''foo': (args) => ({'', ''  a: 1,'', ''}),'']\<rparr>\<close>
  by (simp add: quoted_arrow_example_def close_block.simps py_count_def py_strip_def
        py_isspace_def Let_def)

lemma quoted_arrow_example_result:
  \<open>fix_lines quoted_arrow_example 0 []
     = [CHR 0x27 # ''foo': (args) => ({'', ''  a: 1,'', ''}),'']\<close>
  by (simp add: quoted_arrow_example_def fix_lines.simps close_block.simps re_match_def
        opener_rx_def py_isspace_def py_count_def py_strip_def Let_def)

lemma quoted_arrow_example_depth:
  "first_balanced CHR ''{'' CHR ''}'' quoted_arrow_example 0 = Some 2"
  by (simp add: quoted_arrow_example_def first_balanced_def running_depth_def line_delta_def
        py_count_def upt_rec)

text \<open>
  C2, as the specification states it, fails: on the three lines the parentheses are
  never balanced after line 0. Line 0 opens one parenthesis more than it closes and
  lines 1 and 2 hold none, so the depth that starts at 1 on line 0 is still 1 at
  line 2, and the variable \<^verbatim>\<open>paren_count\<close> of the script would be 1 when the
  inner loop is left. The script, run on the three lines, does not start its scan (the
  key of line 0 is not quoted) and leaves line 2 as it is.
\<close>

theorem paren_balance_never_closes_arrow_example:
  "first_balanced CHR ''('' CHR '')'' arrow_example 0 \<noteq> Some 2
   \<and> running_depth CHR ''('' CHR '')'' arrow_example 0 2 = 1
   \<and> map (line_delta CHR ''('' CHR '')'') arrow_example = [1, 0, 0]
   \<and> st_paren_count (close_block arrow_example 1 1 1 [arrow_example ! 0]) = 1
   \<and> fix_lines arrow_example 0 [] = arrow_example"
proof -
  have "first_balanced CHR ''('' CHR '')'' arrow_example 0 \<noteq> Some 2
   \<and> running_depth CHR ''('' CHR '')'' arrow_example 0 2 = 1
   \<and> map (line_delta CHR ''('' CHR '')'') arrow_example = [1, 0, 0]
   \<and> st_paren_count (close_block arrow_example 1 1 1 [arrow_example ! 0]) = 1"
    by (simp add: arrow_example_def first_balanced_def running_depth_def line_delta_def
          py_count_def upt_rec close_block.simps py_strip_def py_isspace_def Let_def)
  with arrow_example_not_opener show ?thesis
    by blast
qed

text \<open>
  C2, amended: on the three lines with the key in quotes, as the pattern of line 27
  asks, the outer loop enters the block after line 0 with depth 1; counting braces,
  the depth is back at 0 first at line index 2, whose stripped text is \<^verbatim>\<open>},\<close>; the
  inner loop rewrites that line to \<^verbatim>\<open>}),\<close> and is left with the index at 3, and the
  script gives the three lines with line 2 rewritten. On the three lines as the
  scenario gives them, line 0 does not open a block and the script copies them.
\<close>

theorem brace_balance_closes_quoted_arrow_example:
  \<open>re_match opener_rx (quoted_arrow_example ! 0)
   \<and> first_balanced CHR ''{'' CHR ''}'' quoted_arrow_example 0 = Some 2
   \<and> close_block quoted_arrow_example 1 1 1 [quoted_arrow_example ! 0]
       = \<lparr>st_index = 3, st_bracket_count = 0, st_paren_count = 1,
          st_fixed_lines = [CHR 0x27 # ''foo': (args) => ({'', ''  a: 1,'', ''}),'']\<rparr>
   \<and> fix_lines quoted_arrow_example 0 []
       = [CHR 0x27 # ''foo': (args) => ({'', ''  a: 1,'', ''}),'']
   \<and> \<not> re_match opener_rx (arrow_example ! 0)
   \<and> fix_lines arrow_example 0 [] = arrow_example\<close>
  using quoted_arrow_example_opener quoted_arrow_example_depth quoted_arrow_example_block
    quoted_arrow_example_result arrow_example_not_opener
  by (intro conjI) simp_all

end
